theory Spec2Isabelle
  imports Main "HOL-Library.AList"
begin

section \<open>Data model of the plan compiler (aether.ts)\<close>

text \<open>
  The compiler phases, as the string union \<^verbatim>\<open>AetherPhase\<close> of the source.
\<close>

datatype AetherPhase =
  PhaseInit | PhasePlan | PhaseValidate | PhaseDeduplicate | PhaseOptimize
  | PhaseFinalize | PhaseReady

text \<open>
  A plan id is the string \<^verbatim>\<open>_n\<close> handed out by \<^verbatim>\<open>_addPlan\<close>; the model keeps the
  number \<open>n\<close>.  A path identity is a string.
\<close>

type_synonym planId = nat
type_synonym pathIdentity = string

text \<open>
  The concrete class of a plan (its \<^verbatim>\<open>constructor\<close>).  The classes that the compiler
  and the executor test with \<^verbatim>\<open>instanceof\<close> are named; every other class is
  \<open>OtherPlan\<close> with its class name.
\<close>

datatype planKind =
  ItemPlan | ValuePlan | TrackedObjectPlan | ListTransformPlan | OtherPlan string

text \<open>
  The value of an enumerable property of a plan object, as far as \<^verbatim>\<open>validatePlans\<close>
  looks at it: a live reference to an \<^verbatim>\<open>ExecutablePlan\<close> (named by the id of the plan
  referred to), or anything else.
\<close>

datatype propValue = PlanReference planId | PlainValue

text \<open>
  A plan object.  Its identity is its own id, assigned once when it is constructed; two
  slots of the plan table that hold the same object hold equal records.
  \<open>commonAncestorPathIdentity\<close> is the value the finalize phase has assigned; the
  compiler passes before it do not read it.
\<close>

record plan =
  plan_id :: planId
  kind :: planKind
  dependencies :: "planId list"
  hasSideEffects :: bool
  parentPathIdentity :: pathIdentity
  commonAncestorPathIdentity :: pathIdentity
  sync :: bool
  properties :: "(string \<times> propValue) list"

text \<open>
  \<^verbatim>\<open>PlanOptions\<close>: the stream setting is \<^verbatim>\<open>{ initialCount } | null\<close>.
\<close>

record PlanOptions =
  stream :: "nat option"

datatype error =
  CreatingPlanForbidden AetherPhase
  | IllegalPlanReference planId string planId
  | MustNotOptimizeTwice
  | DeduplicateNotAPeer planId
  | DeduplicateLooped
  | AssertionFailed
  | TypeError
  | HookError
  | NotModelled
  | TreeNodeOutsideStart pathIdentity pathIdentity
  | NoCommonAncestor planId

text \<open>
  The state of the compiler.  \<open>plans\<close> is the plan table: an object whose keys are plan
  ids, in insertion order; a slot holds a plan or \<^verbatim>\<open>null\<close> (\<open>None\<close>) once tree shaking
  has deleted it.  Reading a key that was never written gives \<^verbatim>\<open>undefined\<close>, the outer
  \<open>None\<close> of \<open>plans_get\<close>.  \<open>isDev\<close> is the module constant
  \<^verbatim>\<open>process.env.GRAPHILE_ENV === "development"\<close>.  \<open>optimizeCalls\<close> records, in
  order, the plans whose \<^verbatim>\<open>optimize\<close> method has been invoked.
\<close>

record aether =
  isDev :: bool
  phase :: AetherPhase
  planCount :: nat
  plans :: "(planId \<times> plan option) list"
  subscriptionPlanId :: "planId option"
  subscriptionItemPlanId :: "planId option"
  itemPlanIdByFieldPathIdentity :: "(pathIdentity \<times> planId option) list"
  sideEffectPlanIdsByPathIdentity :: "(pathIdentity \<times> planId list) list"
  transformDependencyPlanIdByTransformPlanId :: "(planId \<times> planId) list"
  planOptionsByPlan :: "(plan \<times> PlanOptions) list"
  optimizedPlans :: "plan set"
  optimizeCalls :: "plan list"

definition plans_get :: "aether \<Rightarrow> planId \<Rightarrow> plan option option" where
  "plans_get a i = map_of (plans a) i"

text \<open>Truthiness of a slot value: \<^verbatim>\<open>null\<close> and \<^verbatim>\<open>undefined\<close> are falsy.\<close>

fun isPlan :: "plan option option \<Rightarrow> bool" where
  "isPlan (Some (Some p)) = True"
| "isPlan _ = False"

definition plans_set :: "planId \<Rightarrow> plan option \<Rightarrow> aether \<Rightarrow> aether" where
  "plans_set i v a = a\<lparr>plans := AList.update i v (plans a)\<rparr>"

definition getPlanIds :: "aether \<Rightarrow> nat \<Rightarrow> planId list" where
  "getPlanIds a offset = drop offset (map fst (plans a))"

section \<open>Adding a plan\<close>

text \<open>
  \<^verbatim>\<open>_addPlan\<close>: the phase check throws before anything is written; otherwise the
  counter is incremented and the plan stored under the new id.  The state is returned
  in both cases, so that what a throw leaves behind can be stated.
\<close>

definition addPlan :: "plan \<Rightarrow> aether \<Rightarrow> (error + planId) \<times> aether" where
  "addPlan p a =
     (if phase a \<notin> {PhasePlan, PhaseValidate, PhaseDeduplicate, PhaseOptimize}
      then (Inl (CreatingPlanForbidden (phase a)), a)
      else let planId = planCount a + 1
           in (Inr planId, plans_set planId (Some p) (a\<lparr>planCount := planId\<rparr>)))"

section \<open>Liveness: tree shaking\<close>

definition bindE :: "error + 'a \<Rightarrow> ('a \<Rightarrow> error + 'b) \<Rightarrow> error + 'b" where
  "bindE m f = (case m of Inl e \<Rightarrow> Inl e | Inr x \<Rightarrow> f x)"

text \<open>The plan objects held by the slots of the plan table.\<close>

definition tablePlans :: "aether \<Rightarrow> plan set" where
  "tablePlans a = {p. Some p \<in> snd ` set (plans a)}"

text \<open>
  \<^verbatim>\<open>markPlanActive\<close> is recursive over the dependencies of a plan, with one set of
  active plans shared by all calls.  \<open>markStack\<close> is the loop over the dependency ids
  of the calls in progress: the list holds the ids that the enclosing \<^verbatim>\<open>for\<close> loops
  still have to visit, innermost first.  \<^verbatim>\<open>this.plans[id]\<close> is read when the loop
  reaches the id; a slot that holds no plan makes \<^verbatim>\<open>plan.dependencies\<close> a
  \<^verbatim>\<open>TypeError\<close>.
\<close>

function markStack :: "aether \<Rightarrow> planId list \<Rightarrow> plan set \<Rightarrow> error + plan set" where
  "markStack a [] activePlans = Inr activePlans"
| "markStack a (i # todo) activePlans =
     (case plans_get a i of
        Some (Some p) \<Rightarrow>
          if p \<in> activePlans then markStack a todo activePlans
          else markStack a (dependencies p @ todo) (insert p activePlans)
      | _ \<Rightarrow> Inl TypeError)"
  by pat_completeness auto

lemma finite_tablePlans: "finite (tablePlans a)"
proof -
  have "tablePlans a = Some -` (snd ` set (plans a))"
    by (auto simp: tablePlans_def)
  then show ?thesis
    by (simp add: finite_vimageI)
qed

lemma plans_get_tablePlans: "plans_get a i = Some (Some p) \<Longrightarrow> p \<in> tablePlans a"
  unfolding plans_get_def tablePlans_def
  by (metis (mono_tags, lifting) image_eqI map_of_SomeD mem_Collect_eq snd_conv)

termination markStack
proof (relation "inv_image (less_than <*lex*> less_than)
    (\<lambda>(a, todo, act). (card (tablePlans a - act), length todo))", goal_cases)
  case 1
  show ?case by (intro wf_inv_image wf_lex_prod wf_less_than)
next
  case (2 a i todo activePlans x2 p)
  then show ?case by simp
next
  case (3 a i todo activePlans x2 p)
  then have "p \<in> tablePlans a - activePlans"
    by (simp add: plans_get_tablePlans)
  then have "card (tablePlans a - insert p activePlans) < card (tablePlans a - activePlans)"
    by (metis Diff_insert card_Diff1_less finite_Diff finite_tablePlans)
  then show ?case by simp
qed

definition markPlanActive :: "aether \<Rightarrow> plan option option \<Rightarrow> plan set \<Rightarrow> error + plan set" where
  "markPlanActive a planSlot activePlans =
     (case planSlot of
        Some (Some p) \<Rightarrow>
          if p \<in> activePlans then Inr activePlans
          else markStack a (dependencies p) (insert p activePlans)
      | _ \<Rightarrow> Inl TypeError)"

text \<open>
  The three seed loops of \<^verbatim>\<open>treeShakePlans\<close>.  An item-plan entry may hold
  \<^verbatim>\<open>undefined\<close> (\<open>None\<close>), which the first assertion rejects; in development mode a
  second assertion rejects an id whose slot holds no plan.
\<close>

fun markSeeds :: "aether \<Rightarrow> planId option list \<Rightarrow> plan set \<Rightarrow> error + plan set" where
  "markSeeds a [] activePlans = Inr activePlans"
| "markSeeds a (None # rest) activePlans = Inl AssertionFailed"
| "markSeeds a (Some planId # rest) activePlans =
     (if isDev a \<and> \<not> isPlan (plans_get a planId) then Inl AssertionFailed
      else bindE (markPlanActive a (plans_get a planId) activePlans) (markSeeds a rest))"

text \<open>The sweep: every slot whose plan was not marked is set to \<^verbatim>\<open>null\<close>.\<close>

definition sweepSlot :: "plan set \<Rightarrow> planId \<Rightarrow> aether \<Rightarrow> aether" where
  "sweepSlot activePlans i a =
     (case plans_get a i of
        Some (Some p) \<Rightarrow> if p \<notin> activePlans then plans_set i None a else a
      | _ \<Rightarrow> a)"

definition treeShakePlans :: "aether \<Rightarrow> error + aether" where
  "treeShakePlans a =
     bindE (case subscriptionItemPlanId a of
              Some planId \<Rightarrow> markPlanActive a (plans_get a planId) {}
            | None \<Rightarrow> Inr {})
       (\<lambda>act1. bindE (markSeeds a (map snd (itemPlanIdByFieldPathIdentity a)) act1)
       (\<lambda>act2. bindE (markSeeds a
                         (map Some (concat (map snd (sideEffectPlanIdsByPathIdentity a)))) act2)
       (\<lambda>act3. bindE (markSeeds a
                         (map (Some \<circ> snd) (transformDependencyPlanIdByTransformPlanId a)) act3)
       (\<lambda>act4. Inr (fold (sweepSlot act4) (getPlanIds a 0) a)))))"


text \<open>
  What the liveness pass is meant to compute.  A plan \<open>p\<close> has a dependency edge to \<open>q\<close>
  when one of its dependency ids resolves to \<open>q\<close> in the plan table.  The seeds are the
  plans named by the subscription item plan id, by the item plan ids of the field paths,
  by the side-effect plan ids and by the transform dependency ids.
\<close>

definition dependencyEdge :: "aether \<Rightarrow> plan \<Rightarrow> plan \<Rightarrow> bool" where
  "dependencyEdge a p q = (\<exists>d \<in> set (dependencies p). plans_get a d = Some (Some q))"

definition plansAt :: "aether \<Rightarrow> planId list \<Rightarrow> plan set" where
  "plansAt a ids = {p. \<exists>i \<in> set ids. plans_get a i = Some (Some p)}"

definition reachableFrom :: "aether \<Rightarrow> plan set \<Rightarrow> plan set" where
  "reachableFrom a S = {q. \<exists>s \<in> S. (dependencyEdge a)\<^sup>*\<^sup>* s q}"

fun seedIds :: "planId option list \<Rightarrow> planId list" where
  "seedIds [] = []"
| "seedIds (None # rest) = seedIds rest"
| "seedIds (Some i # rest) = i # seedIds rest"

definition seedPlanIds :: "aether \<Rightarrow> planId list" where
  "seedPlanIds a =
     (case subscriptionItemPlanId a of Some i \<Rightarrow> [i] | None \<Rightarrow> [])
     @ seedIds (map snd (itemPlanIdByFieldPathIdentity a))
     @ concat (map snd (sideEffectPlanIdsByPathIdentity a))
     @ map snd (transformDependencyPlanIdByTransformPlanId a)"

definition reachablePlans :: "aether \<Rightarrow> plan set" where
  "reachablePlans a = reachableFrom a (plansAt a (seedPlanIds a))"

definition closedUnderDependencies :: "aether \<Rightarrow> plan set \<Rightarrow> bool" where
  "closedUnderDependencies a act = (\<forall>p \<in> act. plansAt a (dependencies p) \<subseteq> act)"

definition sweptSlot :: "plan set \<Rightarrow> plan option option \<Rightarrow> plan option option" where
  "sweptSlot act slot =
     (case slot of Some (Some p) \<Rightarrow> if p \<in> act then Some (Some p) else Some None | _ \<Rightarrow> slot)"

text \<open>
  An example: the root value plan, a plan that serves the field \<^verbatim>\<open>a\<close>, and a plan that
  nothing uses.
\<close>

definition shake_plan1 :: plan where
  "shake_plan1 = \<lparr>plan_id = 1, kind = ValuePlan, dependencies = [], hasSideEffects = False,
     parentPathIdentity = [],
     commonAncestorPathIdentity = [], sync = True, properties = []\<rparr>"

definition shake_plan2 :: plan where
  "shake_plan2 = \<lparr>plan_id = 2, kind = OtherPlan ''AccessPlan'', dependencies = [1],
     hasSideEffects = False, parentPathIdentity = ''~'',
     commonAncestorPathIdentity = ''~'', sync = True, properties = []\<rparr>"

definition shake_plan3 :: plan where
  "shake_plan3 = \<lparr>plan_id = 3, kind = OtherPlan ''AccessPlan'', dependencies = [1],
     hasSideEffects = False, parentPathIdentity = ''~'',
     commonAncestorPathIdentity = ''~'', sync = True, properties = []\<rparr>"

definition shake_aether :: aether where
  "shake_aether = \<lparr>isDev = True, phase = PhaseValidate, planCount = 3,
     plans = [(1, Some shake_plan1), (2, Some shake_plan2), (3, Some shake_plan3)],
     subscriptionPlanId = None, subscriptionItemPlanId = None,
     itemPlanIdByFieldPathIdentity = [(''~'', Some 1), (''~>a'', Some 2)],
     sideEffectPlanIdsByPathIdentity = [(''~>a'', [])],
     transformDependencyPlanIdByTransformPlanId = [],
     planOptionsByPlan = [], optimizedPlans = {}, optimizeCalls = []\<rparr>"

section \<open>Processing the plans: deduplication and optimisation\<close>

text \<open>
  The methods \<^verbatim>\<open>deduplicate\<close> and \<^verbatim>\<open>optimize\<close> belong to the plan classes, which the
  compiler does not define; they are parameters of the model.  A hook sees the compiler
  state and its arguments and returns a plan or throws; it creates no plan and writes
  nothing of the compiler state.
\<close>

record hooks =
  deduplicate :: "aether \<Rightarrow> plan \<Rightarrow> plan list \<Rightarrow> error + plan"
  optimize :: "aether \<Rightarrow> plan \<Rightarrow> nat option \<Rightarrow> error + plan"

text \<open>
  Modelled from the spec: \<^verbatim>\<open>arraysMatch\<close> of \<^verbatim>\<open>utils\<close>, which is not among the sources.
  The spec asks for pairwise identical dependencies: the two lists have the same length
  and the comparator holds at every position.
\<close>

definition arraysMatch :: "'a list \<Rightarrow> 'a list \<Rightarrow> ('a \<Rightarrow> 'a \<Rightarrow> bool) \<Rightarrow> bool" where
  "arraysMatch xs ys comparator = list_all2 comparator xs ys"

definition isPeer :: "aether \<Rightarrow> plan \<Rightarrow> plan \<Rightarrow> bool" where
  "isPeer a planA planB =
     (if kind planA \<noteq> kind planB then False
      else if parentPathIdentity planA \<noteq> parentPathIdentity planB then False
      else if \<not> arraysMatch (dependencies planA) (dependencies planB)
                 (\<lambda>depA depB. plans_get a depA = plans_get a depB) then False
      else True)"

text \<open>
  The filter over the entries of the plan table in \<^verbatim>\<open>deduplicatePlan\<close>; \<open>seenIds\<close> is
  the set the filter callback adds to.
\<close>

fun findPeers :: "aether \<Rightarrow> plan \<Rightarrow> (planId \<times> plan option) list \<Rightarrow> planId set \<Rightarrow> plan list" where
  "findPeers a p [] seenIds = []"
| "findPeers a p ((i, None) # entries) seenIds = findPeers a p entries seenIds"
| "findPeers a p ((i, Some potentialPeer) # entries) seenIds =
     (if plan_id potentialPeer = i \<and> \<not> hasSideEffects potentialPeer
         \<and> plan_id potentialPeer \<notin> seenIds \<and> isPeer a p potentialPeer
      then potentialPeer # findPeers a p entries (insert (plan_id potentialPeer) seenIds)
      else findPeers a p entries seenIds)"

definition shouldStream :: "aether \<Rightarrow> plan \<Rightarrow> bool" where
  "shouldStream a p =
     (case map_of (planOptionsByPlan a) p of
        Some planOptions \<Rightarrow> stream planOptions \<noteq> None
      | None \<Rightarrow> False)"

text \<open>
  \<^verbatim>\<open>deduplicatePlan\<close>.  The second component of the result lists the invocations of
  the plan's \<^verbatim>\<open>deduplicate\<close> method: the plan and the peers it was given.
\<close>

definition deduplicatePlan ::
    "hooks \<Rightarrow> aether \<Rightarrow> plan \<Rightarrow> (error + plan) \<times> (plan \<times> plan list) list" where
  "deduplicatePlan h a p =
     (if hasSideEffects p then (Inr p, [])
      else if shouldStream a p then (Inr p, [])
      else let peers = findPeers a p (plans a) {plan_id p}
           in if length peers = 0 then (Inr p, [])
              else (case deduplicate h a p peers of
                      Inl e \<Rightarrow> (Inl e, [(p, peers)])
                    | Inr replacementPlan \<Rightarrow>
                        if replacementPlan \<noteq> p \<and> replacementPlan \<notin> set peers
                        then (Inl (DeduplicateNotAPeer (plan_id p)), [(p, peers)])
                        else (Inr replacementPlan, [(p, peers)])))"

text \<open>
  \<^verbatim>\<open>processPlans\<close>.  The closure \<^verbatim>\<open>process\<close> is recursive over the plans that must be
  processed first, and adds a plan to \<^verbatim>\<open>processed\<close> only when it is done with it, so on
  a cyclic dependency graph it does not return; the first argument bounds the depth of
  the recursion and \<open>None\<close> is the run that exceeds it.  The state threaded through is
  the compiler state, the set \<^verbatim>\<open>processed\<close> and the variables the callback closes over.

  The hooks create no plan, so after the callback the loop of
  \<^verbatim>\<open>finalizeArgumentsSince(oldPlansLength, ...)\<close> over the keys from \<^verbatim>\<open>oldPlansLength\<close> on
  has nothing to visit, and \<^verbatim>\<open>validatePlans(oldPlanCount)\<close> at the end is not reached,
  in a state whose table has \<^verbatim>\<open>planCount\<close> keys; \<open>NotModelled\<close> stands for these two
  steps in any other state.
\<close>

datatype order = DependentsFirst | DependenciesFirst

type_synonym 'c pstate = "aether \<times> plan set \<times> 'c"
type_synonym 'c callback = "aether \<Rightarrow> 'c \<Rightarrow> plan \<Rightarrow> error + (plan \<times> aether \<times> 'c)"

definition setAdd :: "'a \<Rightarrow> 'a list \<Rightarrow> 'a list" where
  "setAdd x xs = (if x \<in> set xs then xs else xs @ [x])"

text \<open>The ids in \<^verbatim>\<open>first\<close>, in the insertion order of the \<^verbatim>\<open>Set\<close>.\<close>

fun dependentIds :: "aether \<Rightarrow> plan \<Rightarrow> plan option list \<Rightarrow> planId list \<Rightarrow> planId list" where
  "dependentIds a p [] first = first"
| "dependentIds a p (None # vs) first = dependentIds a p vs first"
| "dependentIds a p (Some possibleDependent # vs) first =
     (if Some (Some p) \<in> set (map (plans_get a) (dependencies possibleDependent))
      then dependentIds a p vs (setAdd (plan_id possibleDependent) first)
      else dependentIds a p vs first)"

fun dependencyIds :: "aether \<Rightarrow> planId list \<Rightarrow> planId list \<Rightarrow> error + planId list" where
  "dependencyIds a [] first = Inr first"
| "dependencyIds a (depId # deps) first =
     (case plans_get a depId of
        Some (Some dependency) \<Rightarrow> dependencyIds a deps (setAdd (plan_id dependency) first)
      | _ \<Rightarrow> Inl TypeError)"

definition firstIds :: "order \<Rightarrow> aether \<Rightarrow> plan \<Rightarrow> error + planId list" where
  "firstIds ord a p =
     (case ord of
        DependentsFirst \<Rightarrow> Inr (dependentIds a p (map snd (plans a)) [])
      | DependenciesFirst \<Rightarrow> dependencyIds a (dependencies p) [])"

definition shouldAbort :: "aether \<Rightarrow> plan \<Rightarrow> bool" where
  "shouldAbort a p = (\<not> isPlan (plans_get a (plan_id p)))"

text \<open>Replace all references to \<open>p\<close> in the plan table with \<open>replacementPlan\<close>.\<close>

definition replaceSlot :: "plan \<Rightarrow> plan \<Rightarrow> planId \<Rightarrow> aether \<Rightarrow> aether" where
  "replaceSlot p replacementPlan j a =
     (case plans_get a j of
        Some (Some q) \<Rightarrow> if plan_id q = plan_id p then plans_set j (Some replacementPlan) a else a
      | _ \<Rightarrow> a)"

definition replaceReferences :: "plan \<Rightarrow> plan \<Rightarrow> aether \<Rightarrow> aether" where
  "replaceReferences p replacementPlan a = fold (replaceSlot p replacementPlan) (getPlanIds a 0) a"

definition finalizeArgumentsSince :: "aether \<Rightarrow> nat \<Rightarrow> error + aether" where
  "finalizeArgumentsSince a oldPlansLength =
     (case getPlanIds a oldPlansLength of [] \<Rightarrow> Inr a | _ \<Rightarrow> Inl NotModelled)"

text \<open>
  The part of \<^verbatim>\<open>process\<close> after the loop over \<^verbatim>\<open>first\<close>: the callback, the
  replacement of the references when the callback returned another plan, the
  notification \<^verbatim>\<open>onPlanReplacement\<close>, and \<^verbatim>\<open>processed.add(plan)\<close>.
\<close>

definition applyCallback ::
    "'c callback \<Rightarrow> (aether \<Rightarrow> error + aether) option \<Rightarrow> plan \<Rightarrow> 'c pstate \<Rightarrow> error + 'c pstate" where
  "applyCallback callback onPlanReplacement p st =
     (case st of (a1, processed1, c1) \<Rightarrow>
        (case callback a1 c1 p of
           Inl e \<Rightarrow> Inl e
         | Inr (replacementPlan, a2, c2) \<Rightarrow>
            (case finalizeArgumentsSince a2 (planCount a1) of
               Inl e \<Rightarrow> Inl e
             | Inr a3 \<Rightarrow>
                if replacementPlan \<noteq> p
                then (case (case onPlanReplacement of
                              None \<Rightarrow> Inr (replaceReferences p replacementPlan a3)
                            | Some f \<Rightarrow> f (replaceReferences p replacementPlan a3)) of
                        Inl e \<Rightarrow> Inl e
                      | Inr a4 \<Rightarrow> Inr (a4, insert p processed1, c2))
                else Inr (a3, insert p processed1, c2))))"

fun process ::
    "nat \<Rightarrow> order \<Rightarrow> 'c callback \<Rightarrow> (aether \<Rightarrow> error + aether) option
      \<Rightarrow> plan option option \<Rightarrow> 'c pstate \<Rightarrow> (error + 'c pstate) option"
  and processFirst ::
    "nat \<Rightarrow> order \<Rightarrow> 'c callback \<Rightarrow> (aether \<Rightarrow> error + aether) option
      \<Rightarrow> plan \<Rightarrow> planId list \<Rightarrow> 'c pstate \<Rightarrow> (error + bool \<times> 'c pstate) option"
where
  "process 0 ord callback onPlanReplacement slot st = None"
| "process (Suc n) ord callback onPlanReplacement slot st =
     (case slot of
        Some (Some p) \<Rightarrow>
          if p \<in> fst (snd st) then Some (Inr st)
          else (case firstIds ord (fst st) p of
                  Inl e \<Rightarrow> Some (Inl e)
                | Inr first \<Rightarrow>
                   (case processFirst n ord callback onPlanReplacement p first st of
                      None \<Rightarrow> None
                    | Some (Inl e) \<Rightarrow> Some (Inl e)
                    | Some (Inr (True, st1)) \<Rightarrow> Some (Inr st1)
                    | Some (Inr (False, st1)) \<Rightarrow>
                        Some (applyCallback callback onPlanReplacement p st1)))
      | _ \<Rightarrow> Some (Inr st))"
| "processFirst n ord callback onPlanReplacement p [] st = Some (Inr (False, st))"
| "processFirst n ord callback onPlanReplacement p (depId # first) st =
     (case plans_get (fst st) depId of
        Some (Some depPlan) \<Rightarrow>
          if depPlan \<notin> fst (snd st)
          then (case process n ord callback onPlanReplacement (Some (Some depPlan)) st of
                  None \<Rightarrow> None
                | Some (Inl e) \<Rightarrow> Some (Inl e)
                | Some (Inr st1) \<Rightarrow>
                    if shouldAbort (fst st1) p then Some (Inr (True, st1))
                    else processFirst n ord callback onPlanReplacement p first st1)
          else processFirst n ord callback onPlanReplacement p first st
      | _ \<Rightarrow> processFirst n ord callback onPlanReplacement p first st)"

text \<open>The loop of \<^verbatim>\<open>processPlans\<close> over the ids of the table, read before the loop.\<close>

fun processIds ::
    "nat \<Rightarrow> order \<Rightarrow> 'c callback \<Rightarrow> (aether \<Rightarrow> error + aether) option
      \<Rightarrow> planId list \<Rightarrow> 'c pstate \<Rightarrow> (error + 'c pstate) option" where
  "processIds n ord callback onPlanReplacement [] st = Some (Inr st)"
| "processIds n ord callback onPlanReplacement (i # ids) st =
     (case process n ord callback onPlanReplacement (plans_get (fst st) i) st of
        None \<Rightarrow> None
      | Some (Inl e) \<Rightarrow> Some (Inl e)
      | Some (Inr st1) \<Rightarrow> processIds n ord callback onPlanReplacement ids st1)"

definition processPlans ::
    "nat \<Rightarrow> order \<Rightarrow> 'c callback \<Rightarrow> (aether \<Rightarrow> error + aether) option
      \<Rightarrow> nat \<Rightarrow> aether \<Rightarrow> 'c \<Rightarrow> (error + aether \<times> 'c) option" where
  "processPlans n ord callback onPlanReplacement offset a c =
     (case processIds n ord callback onPlanReplacement (getPlanIds a offset) (a, {}, c) of
        None \<Rightarrow> None
      | Some (Inl e) \<Rightarrow> Some (Inl e)
      | Some (Inr (a1, processed, c1)) \<Rightarrow>
          if planCount a1 > planCount a then Some (Inl NotModelled) else Some (Inr (a1, c1)))"

text \<open>
  \<^verbatim>\<open>deduplicatePlans\<close>: the callback counts the replacements; the loop runs until a pass
  makes none, and gives up once \<^verbatim>\<open>loops\<close> exceeds 10000.
\<close>

definition deduplicateCallback :: "hooks \<Rightarrow> nat callback" where
  "deduplicateCallback h a replacements p =
     (case fst (deduplicatePlan h a p) of
        Inl e \<Rightarrow> Inl e
      | Inr replacementPlan \<Rightarrow>
          Inr (replacementPlan, a,
               if replacementPlan \<noteq> p then replacements + 1 else replacements))"

definition deduplicatePass :: "nat \<Rightarrow> hooks \<Rightarrow> nat \<Rightarrow> aether \<Rightarrow> (error + aether \<times> nat) option" where
  "deduplicatePass n h offset a =
     processPlans n DependenciesFirst (deduplicateCallback h) None offset a 0"

function deduplicateLoop ::
    "nat \<Rightarrow> hooks \<Rightarrow> nat \<Rightarrow> nat \<Rightarrow> aether \<Rightarrow> (error + aether) option" where
  "deduplicateLoop n h offset loops a =
     (if loops > 10000 then Some (Inl DeduplicateLooped)
      else (case deduplicatePass n h offset a of
              None \<Rightarrow> None
            | Some (Inl e) \<Rightarrow> Some (Inl e)
            | Some (Inr (a1, replacements)) \<Rightarrow>
                if replacements > 0 then deduplicateLoop n h offset (loops + 1) a1
                else Some (Inr a1)))"
  by pat_completeness auto
termination
  by (relation "measure (\<lambda>(n, h, offset, loops, a). 10001 - loops)") auto

definition deduplicatePlans :: "nat \<Rightarrow> hooks \<Rightarrow> nat \<Rightarrow> aether \<Rightarrow> (error + aether) option" where
  "deduplicatePlans n h offset a = deduplicateLoop n h offset 0 a"

text \<open>
  What a pass that counts its replacements may do to the state: the counter never
  decreases, and the compiler state is the same unless the counter has grown.
\<close>

definition unchangedUnlessCounted :: "nat pstate \<Rightarrow> nat pstate \<Rightarrow> bool" where
  "unchangedUnlessCounted st st' =
     (snd (snd st) \<le> snd (snd st') \<and> (snd (snd st') = snd (snd st) \<longrightarrow> fst st' = fst st))"




text \<open>
  The bookkeeping of \<^verbatim>\<open>optimizePlan\<close> is consistent: no plan is recorded twice, and
  every recorded plan is in \<^verbatim>\<open>optimizedPlans\<close>.
\<close>

definition optimizedOnce :: "aether \<Rightarrow> bool" where
  "optimizedOnce a = (distinct (optimizeCalls a) \<and> set (optimizeCalls a) \<subseteq> optimizedPlans a)"




text \<open>What the replacement of the references to \<open>p\<close> makes of a slot.\<close>

definition replacedSlot :: "plan \<Rightarrow> plan \<Rightarrow> plan option option \<Rightarrow> plan option option" where
  "replacedSlot p replacementPlan slot =
     (case slot of
        Some (Some q) \<Rightarrow> if plan_id q = plan_id p then Some (Some replacementPlan) else slot
      | _ \<Rightarrow> slot)"


text \<open>
  Examples.  Hooks that merge a plan into the first peer offered, and that optimise the
  plan with id 3 into the plan held by slot 1.
\<close>

definition merging_hooks :: hooks where
  "merging_hooks =
     \<lparr>deduplicate = (\<lambda>a p peers. case peers of [] \<Rightarrow> Inr p | peer # _ \<Rightarrow> Inr peer),
      optimize = (\<lambda>a p streamOptions.
         if plan_id p = 3
         then (case plans_get a 1 of Some (Some root) \<Rightarrow> Inr root | _ \<Rightarrow> Inl HookError)
         else Inr p)\<rparr>"

definition chain_plan3 :: plan where
  "chain_plan3 = \<lparr>plan_id = 3, kind = OtherPlan ''AccessPlan'', dependencies = [2],
     hasSideEffects = False, parentPathIdentity = ''~'',
     commonAncestorPathIdentity = ''~'', sync = True, properties = []\<rparr>"


definition streamed_aether :: aether where
  "streamed_aether = shake_aether\<lparr>planOptionsByPlan := [(shake_plan2, \<lparr>stream = Some 0\<rparr>)]\<rparr>"

definition stream_merged_aether :: aether where
  "stream_merged_aether =
     streamed_aether\<lparr>plans := [(1, Some shake_plan1), (2, Some shake_plan2), (3, Some shake_plan2)]\<rparr>"

section \<open>Validation of the plans\<close>

text \<open>
  The errors that the loop over the enumerable properties of one plan pushes: one for
  every property whose value is an \<^verbatim>\<open>ExecutablePlan\<close>.
\<close>

fun illegalReferences :: "plan \<Rightarrow> (string \<times> propValue) list \<Rightarrow> error list" where
  "illegalReferences p [] = []"
| "illegalReferences p ((key, PlanReference val) # props) =
     IllegalPlanReference (plan_id p) key val # illegalReferences p props"
| "illegalReferences p ((key, PlainValue) # props) = illegalReferences p props"

fun validationErrors :: "aether \<Rightarrow> planId list \<Rightarrow> error list" where
  "validationErrors a [] = []"
| "validationErrors a (i # ids) =
     (case plans_get a i of
        Some (Some p) \<Rightarrow>
          (if kind p \<noteq> TrackedObjectPlan then illegalReferences p (properties p) else [])
          @ validationErrors a ids
      | _ \<Rightarrow> validationErrors a ids)"

text \<open>
  \<^verbatim>\<open>validatePlans\<close> throws the first error, if there is one, and goes on to
  \<^verbatim>\<open>assignGroupIds\<close> otherwise.  The walk over the field tree that assigns the group ids
  is a parameter.
\<close>

definition validatePlans ::
    "(aether \<Rightarrow> nat \<Rightarrow> error + aether) \<Rightarrow> aether \<Rightarrow> nat \<Rightarrow> error + aether" where
  "validatePlans assignGroupIds a offset =
     (case validationErrors a (getPlanIds a offset) of
        e # errors \<Rightarrow> Inl e
      | [] \<Rightarrow> assignGroupIds a offset)"

text \<open>Whether a plan holds a direct reference to a plan in one of its properties.\<close>

definition holdsPlanReference :: "plan \<Rightarrow> bool" where
  "holdsPlanReference p = (\<exists>key val. (key, PlanReference val) \<in> set (properties p))"

text \<open>
  Examples: the tracked object plan that wraps the root value plan, as the constructor
  of the compiler creates it, and an ordinary plan that keeps a pointer to its parent.
\<close>

definition tracked_plan :: plan where
  "tracked_plan = \<lparr>plan_id = 2, kind = TrackedObjectPlan, dependencies = [1],
     hasSideEffects = False, parentPathIdentity = [], commonAncestorPathIdentity = [],
     sync = True, properties = [(''valuePlan'', PlanReference 1), (''constraints'', PlainValue)]\<rparr>"

definition pointing_plan :: plan where
  "pointing_plan = \<lparr>plan_id = 3, kind = OtherPlan ''AccessPlan'', dependencies = [1],
     hasSideEffects = False, parentPathIdentity = ''~'', commonAncestorPathIdentity = ''~'',
     sync = True, properties = [(''path'', PlainValue), (''parentPlan'', PlanReference 1)]\<rparr>"

definition tracked_aether :: aether where
  "tracked_aether = shake_aether\<lparr>planCount := 2,
     plans := [(1, Some shake_plan1), (2, Some tracked_plan)]\<rparr>"

definition pointing_aether :: aether where
  "pointing_aether = shake_aether\<lparr>
     plans := [(1, Some shake_plan1), (2, Some tracked_plan), (3, Some pointing_plan)]\<rparr>"

definition merged_aether :: aether where
  "merged_aether = shake_aether\<lparr>plans := [(1, Some shake_plan1), (2, Some shake_plan3), (3, Some shake_plan3)]\<rparr>"



text \<open>
  Some plan among the given slots is not a tracked object plan and holds a direct
  reference to a plan.
\<close>

definition offendingPlan :: "aether \<Rightarrow> planId list \<Rightarrow> bool" where
  "offendingPlan a ids = (\<exists>i p. i \<in> set ids \<and> plans_get a i = Some (Some p)
      \<and> kind p \<noteq> TrackedObjectPlan \<and> holdsPlanReference p)"

section \<open>Scope assignment: the common ancestor path identity\<close>

text \<open>
  A node of the tree that mirrors the selection set, as \<^verbatim>\<open>treeNodePath\<close> and the loop
  of \<^verbatim>\<open>assignCommonAncestorPathIdentity\<close> read it: the node carries its chain of
  ancestors; \<open>node_ref\<close> stands for the identity of the object, which the loop compares,
  so that different nodes of a tree have different references.
\<close>

datatype TreeNode =
  TreeNode (node_ref: nat) (fieldPathIdentity: pathIdentity) (pathIdentity: pathIdentity)
    (groupIds: "nat list") (parent: "TreeNode option")

definition startsWith :: "string \<Rightarrow> string \<Rightarrow> bool" where
  "startsWith s searchString = (take (length searchString) s = searchString)"

text \<open>
  The \<^verbatim>\<open>while\<close> loop of \<^verbatim>\<open>treeNodePath\<close>: walk up the parents as long as their path
  identity starts with \<open>startPathIdentity\<close>, putting each in front of the path.
\<close>

fun ancestorPath :: "pathIdentity \<Rightarrow> TreeNode option \<Rightarrow> TreeNode list \<Rightarrow> TreeNode list" where
  "ancestorPath startPathIdentity None path = path"
| "ancestorPath startPathIdentity (Some (TreeNode r f p g up)) path =
     (if startsWith p startPathIdentity
      then ancestorPath startPathIdentity up (TreeNode r f p g up # path)
      else path)"

text \<open>
  The position of the next list item (not including the first node of the path): the
  first index whose node has the field path identity of its predecessor and another
  path identity.  \<open>None\<close> is \<^verbatim>\<open>findIndex\<close> returning \<open>-1\<close>.
\<close>

definition listBoundary :: "TreeNode \<Rightarrow> TreeNode \<Rightarrow> bool" where
  "listBoundary previous v =
     (fieldPathIdentity previous = fieldPathIdentity v \<and> pathIdentity previous \<noteq> pathIdentity v)"

fun findListChange :: "TreeNode \<Rightarrow> TreeNode list \<Rightarrow> nat \<Rightarrow> nat option" where
  "findListChange previous [] i = None"
| "findListChange previous (v # vs) i =
     (if listBoundary previous v then Some i else findListChange v vs (i + 1))"

definition listChangeIndex :: "TreeNode list \<Rightarrow> nat option" where
  "listChangeIndex path = (case path of [] \<Rightarrow> None | v # vs \<Rightarrow> findListChange v vs 1)"

definition treeNodePath :: "TreeNode \<Rightarrow> pathIdentity \<Rightarrow> error + TreeNode list" where
  "treeNodePath treeNode startPathIdentity =
     (if \<not> startsWith (pathIdentity treeNode) startPathIdentity
      then Inl (TreeNodeOutsideStart (pathIdentity treeNode) startPathIdentity)
      else let path = ancestorPath startPathIdentity (parent treeNode) [treeNode]
           in (case listChangeIndex path of
                 Some i \<Rightarrow> Inr (take i path)
               | None \<Rightarrow> Inr path))"

fun mapE :: "('a \<Rightarrow> error + 'b) \<Rightarrow> 'a list \<Rightarrow> error + 'b list" where
  "mapE f [] = Inr []"
| "mapE f (x # xs) = bindE (f x) (\<lambda>y. bindE (mapE f xs) (\<lambda>ys. Inr (y # ys)))"

text \<open>
  The loop labelled \<^verbatim>\<open>matchLoop\<close>: the largest \<open>i\<close> up to which all paths hold the node
  that the first path holds.  A path that is too short gives \<^verbatim>\<open>undefined\<close>, which is
  not the node.  \<open>None\<close> is the initial \<open>-1\<close>.
\<close>

function matchLoop :: "TreeNode list \<Rightarrow> TreeNode list list \<Rightarrow> nat \<Rightarrow> nat option \<Rightarrow> nat option" where
  "matchLoop firstPath otherPaths i deepestCommonPath =
     (if i < length firstPath
      then (if list_all (\<lambda>path. i < length path \<and> path ! i = firstPath ! i) otherPaths
            then matchLoop firstPath otherPaths (i + 1) (Some i)
            else deepestCommonPath)
      else deepestCommonPath)"
  by pat_completeness auto
termination
  by (relation "measure (\<lambda>(firstPath, otherPaths, i, d). length firstPath - i)") auto

text \<open>
  The body of the loop of \<^verbatim>\<open>assignCommonAncestorPathIdentity\<close> over the plans: the node
  whose path identity becomes the plan's \<^verbatim>\<open>commonAncestorPathIdentity\<close>.  The list of
  tree nodes of a plan is never empty (an empty list would make \<^verbatim>\<open>allPaths[0]\<close>
  undefined).
\<close>

definition commonAncestorNode :: "plan \<Rightarrow> TreeNode list \<Rightarrow> error + TreeNode" where
  "commonAncestorNode p treeNodes =
     bindE (mapE (\<lambda>treeNode. treeNodePath treeNode (parentPathIdentity p)) treeNodes)
       (\<lambda>allPaths. case allPaths of
          [] \<Rightarrow> Inl TypeError
        | firstPath # otherPaths \<Rightarrow>
            (case matchLoop firstPath otherPaths 0 None of
               None \<Rightarrow> Inl (NoCommonAncestor (plan_id p))
             | Some deepestCommonPath \<Rightarrow> Inr (firstPath ! deepestCommonPath)))"

text \<open>
  The tree as \<^verbatim>\<open>walkTreeFirstPlanUsages\<close> descends it: a node with the list of its
  children.  The walk hands to its callback the node with its chain of ancestors, a
  \<open>TreeNode\<close>, which it builds on the way down.
\<close>

datatype Tree =
  Tree (tree_ref: nat) (tree_fieldPathIdentity: pathIdentity) (tree_pathIdentity: pathIdentity)
    (tree_groupIds: "nat list") (tree_children: "Tree list")

text \<open>
  What the walk reads and writes besides the plan table: the object
  \<^verbatim>\<open>planIdByPathIdentity\<close> (a key may hold \<^verbatim>\<open>undefined\<close>), the reference that the next
  tree node created will get, and the calls of the callback so far, in order.
\<close>

record walk =
  planIdByPathIdentity :: "(pathIdentity \<times> planId option) list"
  nextRef :: nat
  usages :: "(TreeNode \<times> plan) list"

text \<open>The id of a plan as the string it is: \<^verbatim>\<open>_\<close> followed by the number.\<close>

fun decimal :: "nat \<Rightarrow> string" where
  "decimal n =
     (if n < 10 then [''0123456789'' ! n]
      else decimal (n div 10) @ [''0123456789'' ! (n mod 10)])"

declare decimal.simps [simp del]

definition planIdString :: "planId \<Rightarrow> string" where
  "planIdString i = CHR ''_'' # decimal i"

text \<open>
  The first use of a \<^verbatim>\<open>__ListTransformPlan\<close> at a tree node gives the node a child for
  the items of the transform, unless it has one already, and registers the plan that the
  transform depends on for that child.
\<close>

definition addTransformTreeNode ::
    "aether \<Rightarrow> TreeNode \<Rightarrow> plan \<Rightarrow> Tree list \<Rightarrow> walk \<Rightarrow> Tree list \<times> walk" where
  "addTransformTreeNode a treeNode p children w =
     (let transformPathIdentity = pathIdentity treeNode @ ''@'' @ planIdString (plan_id p) @ ''[]''
      in if list_ex (\<lambda>c. tree_pathIdentity c = transformPathIdentity) children
         then (children, w)
         else (children @ [Tree (nextRef w) (fieldPathIdentity treeNode) transformPathIdentity
                             (groupIds treeNode) []],
               w\<lparr>planIdByPathIdentity :=
                    AList.update transformPathIdentity
                      (map_of (transformDependencyPlanIdByTransformPlanId a) (plan_id p))
                      (planIdByPathIdentity w),
                 nextRef := Suc (nextRef w)\<rparr>))"

text \<open>
  \<^verbatim>\<open>processPlan\<close>, at a tree node: a plan not yet known at this node is handed to the
  callback with the node, becomes known, and its dependencies are processed in order.
  The state is the list of children of the node, the known plans and the walk.  A slot
  that holds no plan is handed on like a plan, and reading its dependencies throws a
  \<^verbatim>\<open>TypeError\<close>.  The first argument bounds the depth of the recursion.
\<close>

fun processPlan ::
    "nat \<Rightarrow> aether \<Rightarrow> TreeNode \<Rightarrow> plan option option \<Rightarrow> Tree list \<times> plan set \<times> walk
      \<Rightarrow> (error + Tree list \<times> plan set \<times> walk) option"
  and processDependencies ::
    "nat \<Rightarrow> aether \<Rightarrow> TreeNode \<Rightarrow> planId list \<Rightarrow> Tree list \<times> plan set \<times> walk
      \<Rightarrow> (error + Tree list \<times> plan set \<times> walk) option"
where
  "processPlan 0 a treeNode slot st = None"
| "processPlan (Suc n) a treeNode slot st =
     (case st of (children, knownPlans, w) \<Rightarrow>
        (case slot of
           Some (Some p) \<Rightarrow>
             if p \<in> knownPlans then Some (Inr st)
             else (case (if kind p = ListTransformPlan
                         then addTransformTreeNode a treeNode p children w
                         else (children, w)) of
                     (children1, w1) \<Rightarrow>
                       processDependencies n a treeNode (dependencies p)
                         (children1, insert p knownPlans,
                          w1\<lparr>usages := usages w1 @ [(treeNode, p)]\<rparr>))
         | _ \<Rightarrow> Some (Inl TypeError)))"
| "processDependencies n a treeNode [] st = Some (Inr st)"
| "processDependencies n a treeNode (depId # rest) st =
     (case processPlan n a treeNode (plans_get a depId) st of
        None \<Rightarrow> None
      | Some (Inl e) \<Rightarrow> Some (Inl e)
      | Some (Inr st1) \<Rightarrow> processDependencies n a treeNode rest st1)"

text \<open>
  \<^verbatim>\<open>recurse\<close>: at the root, the plan of the subscription; then the plan registered for
  the path identity of the node; then every child, also those just added, each with its
  own copy of the known plans.
\<close>

fun recurse ::
    "nat \<Rightarrow> aether \<Rightarrow> Tree \<Rightarrow> TreeNode option \<Rightarrow> plan set \<Rightarrow> walk \<Rightarrow> (error + walk) option"
  and recurseChildren ::
    "nat \<Rightarrow> aether \<Rightarrow> Tree list \<Rightarrow> TreeNode \<Rightarrow> plan set \<Rightarrow> walk \<Rightarrow> (error + walk) option"
where
  "recurse 0 a t up knownPlans w = None"
| "recurse (Suc n) a t up knownPlans w =
     (let treeNode = TreeNode (tree_ref t) (tree_fieldPathIdentity t) (tree_pathIdentity t)
                       (tree_groupIds t) up
      in case (if up = None
               then (case subscriptionPlanId a of
                       Some i \<Rightarrow>
                         (case plans_get a i of
                            Some (Some subscriptionPlan) \<Rightarrow>
                              processPlan n a treeNode (Some (Some subscriptionPlan))
                                (tree_children t, knownPlans, w)
                          | _ \<Rightarrow> Some (Inl AssertionFailed))
                     | None \<Rightarrow> Some (Inr (tree_children t, knownPlans, w)))
               else Some (Inr (tree_children t, knownPlans, w))) of
           None \<Rightarrow> None
         | Some (Inl e) \<Rightarrow> Some (Inl e)
         | Some (Inr (children1, knownPlans1, w1)) \<Rightarrow>
            (case map_of (planIdByPathIdentity w1) (tree_pathIdentity t) of
               Some (Some treeNodePlanId) \<Rightarrow>
                 (case plans_get a treeNodePlanId of
                    Some (Some treeNodePlan) \<Rightarrow>
                      (case processPlan n a treeNode (Some (Some treeNodePlan))
                              (children1, knownPlans1, w1) of
                         None \<Rightarrow> None
                       | Some (Inl e) \<Rightarrow> Some (Inl e)
                       | Some (Inr (children2, knownPlans2, w2)) \<Rightarrow>
                           recurseChildren n a children2 treeNode knownPlans2 w2)
                  | _ \<Rightarrow> Some (Inl AssertionFailed))
             | _ \<Rightarrow> Some (Inl AssertionFailed)))"
| "recurseChildren n a [] up knownPlans w = Some (Inr w)"
| "recurseChildren n a (child # rest) up knownPlans w =
     (case recurse n a child (Some up) knownPlans w of
        None \<Rightarrow> None
      | Some (Inl e) \<Rightarrow> Some (Inl e)
      | Some (Inr w1) \<Rightarrow> recurseChildren n a rest up knownPlans w1)"

text \<open>
  \<^verbatim>\<open>walkTreeFirstPlanUsages\<close>, from the root tree node with no plan known: the calls of
  the callback, each a tree node and a plan first used there, in order.
\<close>

definition walkTreeFirstPlanUsages ::
    "nat \<Rightarrow> aether \<Rightarrow> (pathIdentity \<times> planId option) list \<Rightarrow> nat \<Rightarrow> Tree
      \<Rightarrow> (error + (TreeNode \<times> plan) list) option" where
  "walkTreeFirstPlanUsages n a planIds ref rootTreeNode =
     (case recurse n a rootTreeNode None {}
             \<lparr>planIdByPathIdentity = planIds, nextRef = ref, usages = []\<rparr> of
        None \<Rightarrow> None
      | Some (Inl e) \<Rightarrow> Some (Inl e)
      | Some (Inr w) \<Rightarrow> Some (Inr (usages w)))"

text \<open>
  The callback of \<^verbatim>\<open>assignCommonAncestorPathIdentity\<close>: the map \<^verbatim>\<open>treeNodesByPlan\<close>,
  whose keys are in the order of their first insertion.
\<close>

definition addUsage ::
    "TreeNode \<times> plan \<Rightarrow> (plan \<times> TreeNode list) list \<Rightarrow> (plan \<times> TreeNode list) list" where
  "addUsage usage treeNodesByPlan =
     (case usage of (treeNode, p) \<Rightarrow>
        AList.update p
          ((case map_of treeNodesByPlan p of Some treeNodes \<Rightarrow> treeNodes | None \<Rightarrow> [])
             @ [treeNode])
          treeNodesByPlan)"

definition treeNodesByPlan :: "(TreeNode \<times> plan) list \<Rightarrow> (plan \<times> TreeNode list) list" where
  "treeNodesByPlan calls = fold addUsage calls []"

text \<open>
  The loop over the entries of \<^verbatim>\<open>treeNodesByPlan\<close>: the path identity that each plan is
  assigned, or the first error thrown.
\<close>

definition assignedPathIdentities ::
    "(plan \<times> TreeNode list) list \<Rightarrow> error + (plan \<times> pathIdentity) list" where
  "assignedPathIdentities entries =
     mapE (\<lambda>(p, treeNodes).
             bindE (commonAncestorNode p treeNodes)
               (\<lambda>commonAncestor. Inr (p, pathIdentity commonAncestor)))
          entries"

text \<open>
  The assignments \<^verbatim>\<open>plan.commonAncestorPathIdentity = ...\<close> of the loop, in the plan
  table: a plan object is the same in every slot that holds it, and no assignment
  reads what another has written.
\<close>

definition setCommonAncestorPathIdentity :: "(plan \<times> pathIdentity) list \<Rightarrow> plan \<Rightarrow> plan" where
  "setCommonAncestorPathIdentity assigned p =
     (case map_of assigned p of
        Some commonAncestor \<Rightarrow> p\<lparr>commonAncestorPathIdentity := commonAncestor\<rparr>
      | None \<Rightarrow> p)"

text \<open>
  The check in development mode after the loop: the first plan of the table left with
  an empty common ancestor path identity though its parent path identity is not empty.
\<close>

definition firstInvalidPlan :: "aether \<Rightarrow> plan option" where
  "firstInvalidPlan a =
     find (\<lambda>p. commonAncestorPathIdentity p = [] \<and> parentPathIdentity p \<noteq> [])
       (List.map_filter snd (plans a))"

text \<open>
  \<^verbatim>\<open>assignCommonAncestorPathIdentity\<close>.  \<^verbatim>\<open>planIdByPathIdentity\<close> and the root tree node
  are fields of the compiler state next to the plan table; they are arguments here, with
  the first unused reference for tree nodes.  The result is the compiler state with the
  path identities assigned.
\<close>

definition assignCommonAncestorPathIdentity ::
    "nat \<Rightarrow> aether \<Rightarrow> (pathIdentity \<times> planId option) list \<Rightarrow> nat \<Rightarrow> Tree
      \<Rightarrow> (error + aether) option" where
  "assignCommonAncestorPathIdentity n a planIds ref rootTreeNode =
     (case walkTreeFirstPlanUsages n a planIds ref rootTreeNode of
        None \<Rightarrow> None
      | Some (Inl e) \<Rightarrow> Some (Inl e)
      | Some (Inr calls) \<Rightarrow>
          Some (bindE (assignedPathIdentities (treeNodesByPlan calls))
                  (\<lambda>assigned.
                     let a1 = a\<lparr>plans := map (\<lambda>(i, slot).
                                  (i, map_option (setCommonAncestorPathIdentity assigned) slot))
                                (plans a)\<rparr>
                     in if isDev a1
                        then (case firstInvalidPlan a1 of
                                Some firstInvalid \<Rightarrow> Inl AssertionFailed
                              | None \<Rightarrow> Inr a1)
                        else Inr a1)))"

text \<open>
  What the assignment is meant to compute.  All paths agree on the positions up to
  \<open>d\<close>, where they hold \<open>node\<close>, and they do not all go on to a common node at the next
  position.
\<close>

definition agreeUpTo :: "TreeNode list list \<Rightarrow> nat \<Rightarrow> bool" where
  "agreeUpTo allPaths d =
     (\<forall>path \<in> set allPaths. d < length path \<and> take (Suc d) path = take (Suc d) (hd allPaths))"

definition deepestCommonNode :: "TreeNode list list \<Rightarrow> TreeNode \<Rightarrow> bool" where
  "deepestCommonNode allPaths node =
     (\<exists>d. agreeUpTo allPaths d \<and> hd allPaths ! d = node \<and> \<not> agreeUpTo allPaths (Suc d))"

text \<open>
  The path from the root to a node, and the path the spec describes: its final part
  under the start path identity, cut before the first list item.
\<close>

fun rootPath :: "TreeNode \<Rightarrow> TreeNode list" where
  "rootPath (TreeNode r f p g None) = [TreeNode r f p g None]"
| "rootPath (TreeNode r f p g (Some up)) = rootPath up @ [TreeNode r f p g (Some up)]"

fun truncateAtList :: "TreeNode list \<Rightarrow> TreeNode list" where
  "truncateAtList [] = []"
| "truncateAtList [v] = [v]"
| "truncateAtList (u # v # vs) = (if listBoundary u v then [u] else u # truncateAtList (v # vs))"

definition usagePath :: "pathIdentity \<Rightarrow> TreeNode \<Rightarrow> TreeNode list" where
  "usagePath startPathIdentity treeNode =
     truncateAtList (rev (takeWhile (\<lambda>n. startsWith (pathIdentity n) startPathIdentity)
       (rev (rootPath treeNode))))"

definition agreeAt :: "TreeNode list \<Rightarrow> TreeNode list list \<Rightarrow> nat \<Rightarrow> bool" where
  "agreeAt firstPath otherPaths i =
     (i < length firstPath \<and> list_all (\<lambda>path. i < length path \<and> path ! i = firstPath ! i) otherPaths)"

text \<open>An example: a list field \<^verbatim>\<open>forums\<close> with two leaf fields under its items.\<close>

definition node_root :: TreeNode where
  "node_root = TreeNode 0 ''~'' ''~'' [0] None"

definition node_forums :: TreeNode where
  "node_forums = TreeNode 1 ''~>forums'' ''~>forums'' [0] (Some node_root)"

definition node_forums_item :: TreeNode where
  "node_forums_item = TreeNode 2 ''~>forums'' ''~>forums[]'' [0] (Some node_forums)"

definition node_name :: TreeNode where
  "node_name = TreeNode 3 ''~>forums[]>name'' ''~>forums[]>name'' [0] (Some node_forums_item)"

definition node_id :: TreeNode where
  "node_id = TreeNode 4 ''~>forums[]>id'' ''~>forums[]>id'' [0] (Some node_forums_item)"

text \<open>The tree nodes at which a plan is first used, in the order of the walk.\<close>

definition firstUsages :: "(TreeNode \<times> plan) list \<Rightarrow> plan \<Rightarrow> TreeNode list" where
  "firstUsages calls p = map fst (filter (\<lambda>(treeNode, q). q = p) calls)"

text \<open>
  The plans of the example: the root value, the list of forums, its items, the two leaf
  fields, and a plan on which both leaf fields depend, with the parent path identity
  given.
\<close>

definition forum_plan :: "planId \<Rightarrow> planKind \<Rightarrow> planId list \<Rightarrow> pathIdentity \<Rightarrow> plan" where
  "forum_plan i k deps parentPath = \<lparr>plan_id = i, kind = k, dependencies = deps,
     hasSideEffects = False, parentPathIdentity = parentPath,
     commonAncestorPathIdentity = [], sync = True, properties = []\<rparr>"

definition forum_plans :: "pathIdentity \<Rightarrow> (planId \<times> plan option) list" where
  "forum_plans shared =
     [(1, Some (forum_plan 1 ValuePlan [] [])),
      (2, Some (forum_plan 2 (OtherPlan ''ForumsPlan'') [1] ''~'')),
      (3, Some (forum_plan 3 ItemPlan [2] ''~>forums'')),
      (4, Some (forum_plan 4 (OtherPlan ''AccessPlan'') [3, 6] ''~>forums[]'')),
      (5, Some (forum_plan 5 (OtherPlan ''AccessPlan'') [3, 6] ''~>forums[]'')),
      (6, Some (forum_plan 6 (OtherPlan ''ContextPlan'') [1] shared)),
      (7, None)]"

definition forum_aether :: "pathIdentity \<Rightarrow> aether" where
  "forum_aether shared = \<lparr>isDev = True, phase = PhaseFinalize, planCount = 7,
     plans = forum_plans shared,
     subscriptionPlanId = None, subscriptionItemPlanId = None,
     itemPlanIdByFieldPathIdentity = [],
     sideEffectPlanIdsByPathIdentity = [],
     transformDependencyPlanIdByTransformPlanId = [],
     planOptionsByPlan = [], optimizedPlans = {}, optimizeCalls = []\<rparr>"

definition forum_planIds :: "(pathIdentity \<times> planId option) list" where
  "forum_planIds =
     [(''~'', Some 1), (''~>forums'', Some 2), (''~>forums[]'', Some 3),
      (''~>forums[]>name'', Some 4), (''~>forums[]>id'', Some 5)]"

definition forum_tree :: Tree where
  "forum_tree =
     Tree 0 ''~'' ''~'' [0]
       [Tree 1 ''~>forums'' ''~>forums'' [0]
          [Tree 2 ''~>forums'' ''~>forums[]'' [0]
             [Tree 3 ''~>forums[]>name'' ''~>forums[]>name'' [0] [],
              Tree 4 ''~>forums[]>id'' ''~>forums[]>id'' [0] []]]]"

definition forum_usages :: "pathIdentity \<Rightarrow> (TreeNode \<times> plan) list" where
  "forum_usages shared =
     [(node_root, forum_plan 1 ValuePlan [] []),
      (node_forums, forum_plan 2 (OtherPlan ''ForumsPlan'') [1] ''~''),
      (node_forums_item, forum_plan 3 ItemPlan [2] ''~>forums''),
      (node_name, forum_plan 4 (OtherPlan ''AccessPlan'') [3, 6] ''~>forums[]''),
      (node_name, forum_plan 6 (OtherPlan ''ContextPlan'') [1] shared),
      (node_id, forum_plan 5 (OtherPlan ''AccessPlan'') [3, 6] ''~>forums[]''),
      (node_id, forum_plan 6 (OtherPlan ''ContextPlan'') [1] shared)]"

definition forum_plans_assigned :: "(planId \<times> plan option) list" where
  "forum_plans_assigned =
     [(1, Some ((forum_plan 1 ValuePlan [] [])\<lparr>commonAncestorPathIdentity := ''~''\<rparr>)),
      (2, Some ((forum_plan 2 (OtherPlan ''ForumsPlan'') [1] ''~'')
                  \<lparr>commonAncestorPathIdentity := ''~>forums''\<rparr>)),
      (3, Some ((forum_plan 3 ItemPlan [2] ''~>forums'')
                  \<lparr>commonAncestorPathIdentity := ''~>forums''\<rparr>)),
      (4, Some ((forum_plan 4 (OtherPlan ''AccessPlan'') [3, 6] ''~>forums[]'')
                  \<lparr>commonAncestorPathIdentity := ''~>forums[]>name''\<rparr>)),
      (5, Some ((forum_plan 5 (OtherPlan ''AccessPlan'') [3, 6] ''~>forums[]'')
                  \<lparr>commonAncestorPathIdentity := ''~>forums[]>id''\<rparr>)),
      (6, Some ((forum_plan 6 (OtherPlan ''ContextPlan'') [1] ''~'')
                  \<lparr>commonAncestorPathIdentity := ''~>forums''\<rparr>)),
      (7, None)]"

section \<open>The executor\<close>

text \<open>
  Values that plans compute.  \<open>CrystalError e\<close> is the error value that wraps the
  error \<open>e\<close>; \<open>Resolving v\<close> and \<open>Rejecting e\<close> are promises, which resolve to \<open>v\<close> or
  reject with \<open>e\<close> when awaited.
\<close>

datatype jsError = JsError string

datatype val =
  Undefined | Null | Data int | CrystalError jsError | Resolving val | Rejecting jsError

text \<open>
  Modelled from the spec: the class \<^verbatim>\<open>PlanResults\<close> of \<^verbatim>\<open>planResults\<close>, which is not among
  the sources.  A plan-results object gives, for a path identity, the bucket that holds
  the values computed at that scope; a bucket is an object, named here by its address,
  and two plan-results objects share a bucket when they give the same address.
  \<^verbatim>\<open>has\<close>, \<^verbatim>\<open>get\<close> and \<^verbatim>\<open>set\<close> read and write the entry of a plan id in that bucket.
\<close>

type_synonym bucketRef = nat
type_synonym arrayRef = nat
type_synonym cacheRef = nat
type_synonym deferredRef = nat
type_synonym PlanResults = "pathIdentity \<Rightarrow> bucketRef"

text \<open>An element of \<^verbatim>\<open>planResultses\<close>: \<^verbatim>\<open>null\<close>, a \<^verbatim>\<open>CrystalError\<close>, or plan results.\<close>

datatype row = NullRow | ErrorRow jsError | ResultsRow PlanResults

text \<open>
  What \<^verbatim>\<open>plan.execute\<close> (or \<^verbatim>\<open>stream\<close>) does with the dependency values: it throws,
  returns the list of results, or returns a promise of it.  The methods are a parameter
  of the model.
\<close>

datatype outcome = Throws jsError | Returns "val list" | ReturnsPromise "jsError + val list"

type_synonym executors = "plan \<Rightarrow> val list list \<Rightarrow> outcome"

text \<open>
  The mutable objects the executor works on: the buckets, the arrays (result arrays and
  lists of dependency values are shared through the plan caches, so they live at
  addresses), the plan caches \<^verbatim>\<open>PlanCacheForPlanResultses\<close>, and of the crystal context
  for each plan the map from the buckets in flight to their deferred results
  (\<^verbatim>\<open>inProgressPlanResolutions\<close>).  A deferred result is a promise with its \<^verbatim>\<open>resolve\<close> and
  \<^verbatim>\<open>reject\<close>: it is not settled (\<open>None\<close>), or rejected with an error, or resolved with a
  value.  \<open>executeCalls\<close> records, in order, each invocation of a plan's \<^verbatim>\<open>execute\<close> with
  the dependency values it was given.
\<close>

record heap =
  bucketStore :: "bucketRef \<Rightarrow> (planId \<times> val) list"
  arrayStore :: "arrayRef \<Rightarrow> val list"
  nextArray :: nat
  cacheStore :: "cacheRef \<Rightarrow> (planId \<times> arrayRef) list"
  nextCache :: nat
  inProgressPlanResolutions :: "planId \<Rightarrow> (bucketRef \<times> deferredRef) list"
  deferredStore :: "deferredRef \<Rightarrow> (jsError + val) option"
  nextDeferred :: nat
  executeCalls :: "(plan \<times> val list list) list"

datatype execError =
  RecursionError planId
  | ValuePlanQueued planId
  | ItemPlanExecuted
  | MissingDependency planId
  | ResultCountMismatch
  | Rejected jsError
  | AsyncNotModelled

definition bucketSet :: "bucketRef \<Rightarrow> planId \<Rightarrow> val \<Rightarrow> heap \<Rightarrow> heap" where
  "bucketSet b planId v st =
     st\<lparr>bucketStore := (bucketStore st)(b := AList.update planId v (bucketStore st b))\<rparr>"

definition newArray :: "val list \<Rightarrow> heap \<Rightarrow> arrayRef \<times> heap" where
  "newArray xs st =
     (nextArray st, st\<lparr>arrayStore := (arrayStore st)(nextArray st := xs),
                       nextArray := nextArray st + 1\<rparr>)"

definition newCache :: "heap \<Rightarrow> cacheRef \<times> heap" where
  "newCache st =
     (nextCache st, st\<lparr>cacheStore := (cacheStore st)(nextCache st := []),
                       nextCache := nextCache st + 1\<rparr>)"

definition cacheSet :: "cacheRef \<Rightarrow> planId \<Rightarrow> arrayRef \<Rightarrow> heap \<Rightarrow> heap" where
  "cacheSet c planId r st =
     st\<lparr>cacheStore := (cacheStore st)(c := AList.update planId r (cacheStore st c))\<rparr>"

text \<open>Reading an index of an array: \<^verbatim>\<open>undefined\<close> beyond its length.\<close>

definition readIndex :: "val list \<Rightarrow> nat \<Rightarrow> val" where
  "readIndex xs i = (if i < length xs then xs ! i else Undefined)"

text \<open>\<^verbatim>\<open>array.splice(i, 1)\<close>.\<close>

definition splice :: "nat \<Rightarrow> val list \<Rightarrow> val list" where
  "splice i xs = take i xs @ drop (Suc i) xs"

definition spliceAt :: "nat \<Rightarrow> arrayRef \<Rightarrow> heap \<Rightarrow> heap" where
  "spliceAt i r st = st\<lparr>arrayStore := (arrayStore st)(r := splice i (arrayStore st r))\<rparr>"

subsection \<open>\<^verbatim>\<open>executePlanAlt\<close>: the buckets of a batch\<close>

text \<open>
  A \<^verbatim>\<open>PlanResultsAndIndex\<close>, and the map \<^verbatim>\<open>planResultsesByBucket\<close> from buckets to lists
  of them, in insertion order.
\<close>

type_synonym item = "PlanResults \<times> nat"
type_synonym groups = "(bucketRef \<times> item list) list"

fun groupsAdd :: "bucketRef \<Rightarrow> item \<Rightarrow> groups \<Rightarrow> groups" where
  "groupsAdd bucket it [] = [(bucket, [it])]"
| "groupsAdd bucket it ((b, items) # gs) =
     (if bucket = b then (b, items @ [it]) # gs else (b, items) # groupsAdd bucket it gs)"

text \<open>
  The first loop: a row that is \<^verbatim>\<open>null\<close> or an error is its own result; the others are
  grouped by their bucket at the plan's common ancestor path identity.
\<close>

fun groupRows :: "pathIdentity \<Rightarrow> row list \<Rightarrow> nat \<Rightarrow> val list \<Rightarrow> groups \<Rightarrow> val list \<times> groups" where
  "groupRows cap [] i result gs = (result, gs)"
| "groupRows cap (NullRow # rows) i result gs = groupRows cap rows (i + 1) (result[i := Null]) gs"
| "groupRows cap (ErrorRow e # rows) i result gs =
     groupRows cap rows (i + 1) (result[i := CrystalError e]) gs"
| "groupRows cap (ResultsRow planResults # rows) i result gs =
     groupRows cap rows (i + 1) result (groupsAdd (planResults cap) (planResults, i) gs)"

text \<open>\<^verbatim>\<open>for (const item of list) result[item.planResultsesIndex] = value\<close>.\<close>

fun fillItems :: "item list \<Rightarrow> val \<Rightarrow> val list \<Rightarrow> val list" where
  "fillItems [] v result = result"
| "fillItems ((planResults, i) # items) v result = fillItems items v (result[i := v])"

text \<open>
  The second loop: a bucket that holds a result for the plan gives it to all its rows;
  the others are collected for execution.
\<close>

fun collectPending ::
    "heap \<Rightarrow> plan \<Rightarrow> groups \<Rightarrow> val list \<Rightarrow> item list list
      \<Rightarrow> execError + val list \<times> item list list" where
  "collectPending st p [] result pending = Inr (result, pending)"
| "collectPending st p ((bucket, items) # gs) result pending =
     (case map_of (bucketStore st bucket) (plan_id p) of
        Some previousResult \<Rightarrow>
          collectPending st p gs (fillItems items previousResult result) pending
      | None \<Rightarrow>
          if kind p = ValuePlan then Inl (ValuePlanQueued (plan_id p))
          else collectPending st p gs result (pending @ [items]))"

text \<open>The shortcut for an \<^verbatim>\<open>__ItemPlan\<close>, which is never executed.\<close>

fun itemPlanResult :: "heap \<Rightarrow> plan \<Rightarrow> row \<Rightarrow> val" where
  "itemPlanResult st p NullRow = Null"
| "itemPlanResult st p (ErrorRow e) = CrystalError e"
| "itemPlanResult st p (ResultsRow planResults) =
     (case map_of (bucketStore st (planResults (commonAncestorPathIdentity p))) (plan_id p) of
        Some v \<Rightarrow> v
      | None \<Rightarrow> Undefined)"

text \<open>
  \<^verbatim>\<open>doNext\<close>.  The loop over the pending buckets, from the last to the first: the first
  dependency value that is a \<^verbatim>\<open>CrystalError\<close> becomes the result of the bucket's rows, is
  stored in the bucket, and the bucket's position is spliced out of every list of
  dependency values; a bucket with no such value is pushed onto \<^verbatim>\<open>toExecute\<close>.
\<close>

fun firstError :: "heap \<Rightarrow> arrayRef list \<Rightarrow> nat \<Rightarrow> val option" where
  "firstError st [] i = None"
| "firstError st (r # dependencyValuesList) i =
     (case readIndex (arrayStore st r) i of
        CrystalError e \<Rightarrow> Some (CrystalError e)
      | _ \<Rightarrow> firstError st dependencyValuesList i)"

definition setFirst :: "pathIdentity \<Rightarrow> planId \<Rightarrow> val \<Rightarrow> item list \<Rightarrow> heap \<Rightarrow> heap" where
  "setFirst cap planId v items st =
     (case items of [] \<Rightarrow> st | (planResults, i) # _ \<Rightarrow> bucketSet (planResults cap) planId v st)"

fun shortCircuit ::
    "plan \<Rightarrow> arrayRef list \<Rightarrow> item list list \<Rightarrow> nat \<Rightarrow> heap \<times> val list \<times> item list list
      \<Rightarrow> heap \<times> val list \<times> item list list" where
  "shortCircuit p dependencyValuesList pending 0 acc = acc"
| "shortCircuit p dependencyValuesList pending (Suc i) (st, result, toExecute) =
     (case firstError st dependencyValuesList i of
        Some error \<Rightarrow>
          shortCircuit p dependencyValuesList pending i
            (fold (spliceAt i) dependencyValuesList
               (setFirst (commonAncestorPathIdentity p) (plan_id p) error (pending ! i) st),
             fillItems (pending ! i) error result, toExecute)
      | None \<Rightarrow>
          shortCircuit p dependencyValuesList pending i (st, result, toExecute @ [pending ! i]))"

text \<open>
  The synchronous execution: the plan's \<^verbatim>\<open>execute\<close> is invoked once, with the lists of
  dependency values as they are now; a throw, or a promise in place of the list, becomes
  one \<^verbatim>\<open>CrystalError\<close> for every bucket.  Each bucket of \<^verbatim>\<open>toExecute\<close> then takes its
  value, for all its rows, and stores it through the first of them.  (In development
  mode the other rows are compared with what their bucket holds, which is what was just
  stored, since the rows of one list have the same bucket.)
\<close>

fun fillExecuted ::
    "plan \<Rightarrow> val option \<Rightarrow> val list \<Rightarrow> item list list \<Rightarrow> nat \<Rightarrow> heap \<times> val list \<Rightarrow> heap \<times> val list" where
  "fillExecuted p crystalError executionResults [] executableIndex acc = acc"
| "fillExecuted p crystalError executionResults (items # toExecute) executableIndex (st, result) =
     (let v = (case crystalError of
                 Some e \<Rightarrow> e
               | None \<Rightarrow>
                   if dependencies p \<noteq> [] \<or> hasSideEffects p
                   then readIndex executionResults executableIndex
                   else readIndex executionResults 0)
      in fillExecuted p crystalError executionResults toExecute (executableIndex + 1)
           (setFirst (commonAncestorPathIdentity p) (plan_id p) v items st, fillItems items v result))"

definition executeSync ::
    "executors \<Rightarrow> plan \<Rightarrow> arrayRef list \<Rightarrow> item list list \<Rightarrow> heap \<times> val list \<Rightarrow> heap \<times> val list" where
  "executeSync ex p dependencyValuesList toExecute acc =
     (case acc of (st, result) \<Rightarrow>
        let values = map (arrayStore st) dependencyValuesList;
            called = st\<lparr>executeCalls := executeCalls st @ [(p, values)]\<rparr>
        in (case ex p values of
              Throws e \<Rightarrow> fillExecuted p (Some (CrystalError e)) [] toExecute 0 (called, result)
            | ReturnsPromise promise \<Rightarrow>
                fillExecuted p (Some (CrystalError (JsError ''claims to be synchronous''))) []
                  toExecute 0 (called, result)
            | Returns executionResults \<Rightarrow>
                fillExecuted p None executionResults toExecute 0 (called, result)))"

text \<open>
  Whether \<^verbatim>\<open>doNext\<close> executes the plan itself: the plan is synchronous, is no list
  transform, and is neither the subscription plan nor streamed.
\<close>

definition executesSynchronously :: "aether \<Rightarrow> plan \<Rightarrow> bool" where
  "executesSynchronously a p =
     (sync p \<and> kind p \<noteq> ListTransformPlan
      \<and> \<not> (Some (plan_id p) = subscriptionPlanId a \<or> shouldStream a p))"

text \<open>
  The lists of dependency values of a plan with no dependencies: one list of
  \<^verbatim>\<open>undefined\<close>, as long as the pending buckets for a plan with side effects, of length
  one otherwise.
\<close>

definition noDependencyValues :: "plan \<Rightarrow> nat \<Rightarrow> heap \<Rightarrow> arrayRef list \<times> heap" where
  "noDependencyValues p pendingLength st =
     (case newArray (if hasSideEffects p then replicate pendingLength Undefined else [Undefined]) st of
        (r, st1) \<Rightarrow> ([r], st1))"
definition doNext ::
    "aether \<Rightarrow> executors \<Rightarrow> plan \<Rightarrow> arrayRef list \<Rightarrow> item list list \<Rightarrow> val list \<Rightarrow> heap
      \<Rightarrow> execError + arrayRef \<times> heap" where
  "doNext a ex p dependencyValuesList pending result st =
     (case (if dependencies p \<noteq> []
            then shortCircuit p dependencyValuesList pending (length pending) (st, result, [])
            else (st, result, pending)) of
        (st1, result1, toExecute) \<Rightarrow>
          if length toExecute = 0 then Inr (newArray result1 st1)
          else if kind p = ItemPlan then Inl ItemPlanExecuted
          else if executesSynchronously a p
          then (case executeSync ex p dependencyValuesList (rev toExecute) (st1, result1) of
                  (st2, result2) \<Rightarrow> Inr (newArray result2 st2))
          else Inl AsyncNotModelled)"

text \<open>
  The start of \<^verbatim>\<open>executePlanAlt\<close>, up to the collection of the pending buckets: it
  throws, or has the result already (an \<^verbatim>\<open>__ItemPlan\<close>, or nothing pending), or has
  buckets to execute for.
\<close>

datatype prepared =
  Thrown execError | Complete "val list" | Pending "val list" "item list list"

definition prepare :: "heap \<Rightarrow> plan \<Rightarrow> row list \<Rightarrow> plan set \<Rightarrow> prepared" where
  "prepare st p planResultses visitedPlans =
     (if p \<in> visitedPlans then Thrown (RecursionError (plan_id p))
      else if kind p = ItemPlan then Complete (map (itemPlanResult st p) planResultses)
      else (case groupRows (commonAncestorPathIdentity p) planResultses 0
                   (replicate (length planResultses) Undefined) [] of
              (result, planResultsesByBucket) \<Rightarrow>
                (case collectPending st p planResultsesByBucket result [] of
                   Inl e \<Rightarrow> Thrown e
                 | Inr (result1, pending) \<Rightarrow>
                     if length pending = 0 then Complete result1 else Pending result1 pending)))"

text \<open>
  The plan results the dependencies are executed for: the first of each pending bucket;
  and the plan cache that goes with them: the caller's, if every row is pending, a new
  one otherwise.
\<close>

definition pendingPlanResultses :: "item list list \<Rightarrow> row list" where
  "pendingPlanResultses pending = map (\<lambda>items. ResultsRow (fst (hd items))) pending"

definition pendingCache :: "item list list \<Rightarrow> row list \<Rightarrow> cacheRef \<Rightarrow> heap \<Rightarrow> cacheRef \<times> heap" where
  "pendingCache pending planResultses cache st =
     (if length pending = length planResultses then (cache, st) else newCache st)"

text \<open>Sequencing of steps that may throw or not return.\<close>

definition andThen ::
    "(execError + 'a) option \<Rightarrow> ('a \<Rightarrow> (execError + 'b) option) \<Rightarrow> (execError + 'b) option" where
  "andThen m f = (case m of None \<Rightarrow> None | Some (Inl e) \<Rightarrow> Some (Inl e) | Some (Inr x) \<Rightarrow> f x)"

text \<open>
  \<^verbatim>\<open>executePlan\<close>, \<^verbatim>\<open>executePlanAlt\<close> and its loop over the dependencies, where every plan
  met is executed synchronously, so that no promise is created and the order of the
  effects is the order of the code.  A plan that is not synchronous is handed to
  \<^verbatim>\<open>executePlanOld\<close>; the model stops there with \<open>AsyncNotModelled\<close>.  The recursion goes
  through the dependencies; \<^verbatim>\<open>visitedPlans\<close> cuts a cycle with an error.  The first
  argument bounds the depth of the recursion, and \<open>None\<close> is the run that exceeds it.
\<close>

function executePlan ::
    "nat \<Rightarrow> aether \<Rightarrow> executors \<Rightarrow> plan \<Rightarrow> row list \<Rightarrow> plan set \<Rightarrow> cacheRef \<Rightarrow> heap
      \<Rightarrow> (execError + arrayRef \<times> heap) option"
  and executePlanAlt ::
    "nat \<Rightarrow> aether \<Rightarrow> executors \<Rightarrow> plan \<Rightarrow> row list \<Rightarrow> plan set \<Rightarrow> cacheRef \<Rightarrow> heap
      \<Rightarrow> (execError + arrayRef \<times> heap) option"
  and executeDependencies ::
    "nat \<Rightarrow> aether \<Rightarrow> executors \<Rightarrow> planId list \<Rightarrow> row list \<Rightarrow> plan set \<Rightarrow> cacheRef \<Rightarrow> heap
      \<Rightarrow> (execError + arrayRef list \<times> heap) option"
where
  "executePlan 0 a ex p planResultses visitedPlans cache st = None"
| "executePlan (Suc n) a ex p planResultses visitedPlans cache st =
     (case map_of (cacheStore st cache) (plan_id p) of
        Some r \<Rightarrow> Some (Inr (r, st))
      | None \<Rightarrow>
          andThen (executePlanAlt n a ex p planResultses visitedPlans cache st)
            (\<lambda>(r, st1). Some (Inr (r, cacheSet cache (plan_id p) r st1))))"
| "executePlanAlt n a ex p planResultses visitedPlans cache st =
     (case prepare st p planResultses visitedPlans of
        Thrown e \<Rightarrow> Some (Inl e)
      | Complete result \<Rightarrow> Some (Inr (newArray result st))
      | Pending result pending \<Rightarrow>
          andThen
            (if dependencies p \<noteq> []
             then executeDependencies n a ex (dependencies p) (pendingPlanResultses pending)
                    (insert p visitedPlans)
                    (fst (pendingCache pending planResultses cache st))
                    (snd (pendingCache pending planResultses cache st))
             else Some (Inr (noDependencyValues p (length pending)
                               (snd (pendingCache pending planResultses cache st)))))
            (\<lambda>(dependencyValuesList, st2).
                Some (doNext a ex p dependencyValuesList pending result st2)))"
| "executeDependencies n a ex [] pendingRows visitedPlans cache st = Some (Inr ([], st))"
| "executeDependencies n a ex (dependencyPlanId # ids) pendingRows visitedPlans cache st =
     (case plans_get a dependencyPlanId of
        Some (Some dependencyPlan) \<Rightarrow>
          andThen (executePlan n a ex dependencyPlan pendingRows visitedPlans cache st)
            (\<lambda>(r, st1).
                andThen (executeDependencies n a ex ids pendingRows visitedPlans cache st1)
                  (\<lambda>(rs, st2). Some (Inr (r # rs, st2))))
      | _ \<Rightarrow> Some (Inl (MissingDependency dependencyPlanId)))"
  by pat_completeness auto
termination
  by (relation "inv_image (less_than <*lex*> less_than)
        (\<lambda>x. case x of
           Inl (n, a, ex, p, rows, visited, cache, st) \<Rightarrow> (3 * n, 0)
         | Inr (Inl (n, a, ex, p, rows, visited, cache, st)) \<Rightarrow> (3 * n + 2, 0)
         | Inr (Inr (n, a, ex, ids, rows, visited, cache, st)) \<Rightarrow> (3 * n + 1, length ids))")
     auto
text \<open>
  An example: two rows of a list, whose items the plan 1 stands for, and four plans in a
  diamond.  The plan 2 fetches a value for each item and is not synchronous; its
  execution has ended, with an error for the first row and the value 7 for the second,
  and both are stored in the buckets of the rows.  The plans 3 and 4 are synchronous and
  each derive a value from the value of plan 2 (adding 1 and 2); the plan 5 is
  synchronous and adds the values of the plans 3 and 4.
\<close>

definition users_item_plan :: plan where
  "users_item_plan = \<lparr>plan_id = 1, kind = ItemPlan, dependencies = [],
     hasSideEffects = False, parentPathIdentity = ''~>users[]'',
     commonAncestorPathIdentity = ''~>users[]'', sync = True, properties = []\<rparr>"

definition fetch_plan :: plan where
  "fetch_plan = \<lparr>plan_id = 2, kind = OtherPlan ''FetchPlan'', dependencies = [1],
     hasSideEffects = False, parentPathIdentity = ''~>users[]'',
     commonAncestorPathIdentity = ''~>users[]'', sync = False, properties = []\<rparr>"

definition plus_one_plan :: plan where
  "plus_one_plan = \<lparr>plan_id = 3, kind = OtherPlan ''PlusOnePlan'', dependencies = [2],
     hasSideEffects = False, parentPathIdentity = ''~>users[]'',
     commonAncestorPathIdentity = ''~>users[]'', sync = True, properties = []\<rparr>"

definition plus_two_plan :: plan where
  "plus_two_plan = \<lparr>plan_id = 4, kind = OtherPlan ''PlusTwoPlan'', dependencies = [2],
     hasSideEffects = False, parentPathIdentity = ''~>users[]'',
     commonAncestorPathIdentity = ''~>users[]'', sync = True, properties = []\<rparr>"

definition sum_plan :: plan where
  "sum_plan = \<lparr>plan_id = 5, kind = OtherPlan ''SumPlan'', dependencies = [3, 4],
     hasSideEffects = False, parentPathIdentity = ''~>users[]'',
     commonAncestorPathIdentity = ''~>users[]'', sync = True, properties = []\<rparr>"

definition diamond_aether :: aether where
  "diamond_aether = \<lparr>isDev = False, phase = PhaseReady, planCount = 5,
     plans = [(1, Some users_item_plan), (2, Some fetch_plan), (3, Some plus_one_plan),
              (4, Some plus_two_plan), (5, Some sum_plan)],
     subscriptionPlanId = None, subscriptionItemPlanId = None,
     itemPlanIdByFieldPathIdentity = [(''~>users'', Some 1), (''~>users[]>total'', Some 5)],
     sideEffectPlanIdsByPathIdentity = [],
     transformDependencyPlanIdByTransformPlanId = [],
     planOptionsByPlan = [], optimizedPlans = {}, optimizeCalls = []\<rparr>"

fun addTo :: "int \<Rightarrow> val \<Rightarrow> val" where
  "addTo k (Data n) = Data (n + k)"
| "addTo k v = Undefined"

fun addVals :: "val \<Rightarrow> val \<Rightarrow> val" where
  "addVals (Data m) (Data n) = Data (m + n)"
| "addVals v w = Undefined"

definition diamond_executors :: executors where
  "diamond_executors p values =
     (if plan_id p = 2
      then Returns (map (\<lambda>v. if v = Data 100 then Rejecting (JsError ''boom'')
                               else Resolving (Data 7)) (hd values))
      else if plan_id p = 3 then Returns (map (addTo 1) (hd values))
      else if plan_id p = 4 then Returns (map (addTo 2) (hd values))
      else if plan_id p = 5 then Returns (map2 addVals (values ! 0) (values ! 1))
      else Throws (JsError ''not executable''))"

definition row_a :: PlanResults where
  "row_a = (\<lambda>pathIdentity. 10)"

definition row_b :: PlanResults where
  "row_b = (\<lambda>pathIdentity. 11)"

definition diamond_heap :: heap where
  "diamond_heap = \<lparr>
     bucketStore = (\<lambda>bucket. [])
        (10 := [(1, Data 100), (2, CrystalError (JsError ''boom''))],
         11 := [(1, Data 101), (2, Data 7)]),
     arrayStore = (\<lambda>r. []), nextArray = 0,
     cacheStore = (\<lambda>c. []), nextCache = 1,
     inProgressPlanResolutions = (\<lambda>planId. []),
     deferredStore = (\<lambda>deferred. None), nextDeferred = 0,
     executeCalls = []\<rparr>"

text \<open>What the examples observe of a run: the result, the two buckets, the invocations.\<close>

definition observed ::
    "(execError + arrayRef \<times> heap) option
      \<Rightarrow> (execError + val list \<times> (planId \<times> val) list \<times> (planId \<times> val) list
            \<times> (planId \<times> val list list) list) option" where
  "observed run =
     map_option (map_sum id (\<lambda>(r, st).
        (arrayStore st r, bucketStore st 10, bucketStore st 11,
         map (\<lambda>(p, values). (plan_id p, values)) (executeCalls st)))) run"

text \<open>
  What a step adds to the record of invocations: invocations of plans of \<open>S\<close> only,
  after those already recorded.
\<close>

definition appendsCalls :: "heap \<Rightarrow> heap \<Rightarrow> plan set \<Rightarrow> bool" where
  "appendsCalls st st' S =
     (\<exists>seg. executeCalls st' = executeCalls st @ seg \<and> fst ` set seg \<subseteq> S)"

subsection \<open>\<^verbatim>\<open>executeBatchForPlanResultses\<close>: the side effects of a field\<close>

text \<open>
  A promise, as far as the chain of the side effects reads it: the time at which it is
  settled, the state of the program at that time, and whether it is fulfilled, and with
  which value, or rejected.  \<^verbatim>\<open>Promise.resolve()\<close> is fulfilled at once.
  \<^verbatim>\<open>chain.then(f)\<close> calls \<open>f\<close> when \<open>chain\<close> is fulfilled, at that time and in that state,
  and is settled as the promise that \<open>f\<close> returns; when \<open>chain\<close> is rejected, \<open>f\<close> is not
  called and the rejection is passed on.
\<close>

datatype ('st, 'v) promise =
  Promise (settledAt: nat) (stateThen: 'st) (settledWith: "jsError + 'v")

definition promiseResolve :: "nat \<Rightarrow> 'st \<Rightarrow> ('st, unit) promise" where
  "promiseResolve now st = Promise now st (Inr ())"

definition promiseThen ::
    "('st, 'v) promise \<Rightarrow> ('v \<Rightarrow> nat \<Rightarrow> 'st \<Rightarrow> ('st, 'w) promise) \<Rightarrow> ('st, 'w) promise" where
  "promiseThen chain onFulfilled =
     (case settledWith chain of
        Inl e \<Rightarrow> Promise (settledAt chain) (stateThen chain) (Inl e)
      | Inr v \<Rightarrow> onFulfilled v (settledAt chain) (stateThen chain))"

text \<open>
  The end of \<^verbatim>\<open>executeBatchForPlanResultses\<close>: the chain of the side effects, and then
  the layers of the field.  \<open>runPlan sideEffectPlan planResultses\<close> stands for the call
  \<^verbatim>\<open>this.executePlan(sideEffectPlan, crystalContext, planResultses)\<close>: called at a time
  and in a state, it gives a promise settled at any later time, in any state, fulfilled
  or rejected (a plan that returns or throws at once gives a promise settled at the time
  of the call).  Its value is left out, since no callback of the chain reads the value of
  the promise before it.  \<^verbatim>\<open>executeBatchInner\<close>, which executes the plan of the field and
  the layers of its item plan, is a parameter of the same kind.
\<close>

definition executeBatchForPlanResultses ::
    "(plan \<Rightarrow> row list \<Rightarrow> nat \<Rightarrow> 'st \<Rightarrow> ('st, unit) promise) \<Rightarrow> plan list \<Rightarrow> row list
      \<Rightarrow> (nat \<Rightarrow> 'st \<Rightarrow> ('st, 'r) promise) \<Rightarrow> nat \<Rightarrow> 'st \<Rightarrow> ('st, 'r) promise" where
  "executeBatchForPlanResultses runPlan sideEffectPlans planResultses executeBatchInner now st =
     (if length sideEffectPlans > 0
      then promiseThen
             (fold (\<lambda>sideEffectPlan chain.
                      promiseThen chain (\<lambda>_. runPlan sideEffectPlan planResultses))
                sideEffectPlans (promiseResolve now st))
             (\<lambda>_. executeBatchInner)
      else executeBatchInner now st)"

text \<open>
  The specification's reading: the side-effect plans one after the other in the order of
  their declaration, each called at the time at which, and in the state in which, the
  promise of the one before is fulfilled, and none called after a rejection.  With the
  promise at the end comes the record of the calls made: the plan, the time of the call,
  and the time at which its promise is settled.
\<close>

fun inDeclarationOrder ::
    "(plan \<Rightarrow> row list \<Rightarrow> nat \<Rightarrow> 'st \<Rightarrow> ('st, unit) promise) \<Rightarrow> plan list \<Rightarrow> row list
      \<Rightarrow> nat \<Rightarrow> 'st \<Rightarrow> (plan \<times> nat \<times> nat) list \<times> ('st, unit) promise" where
  "inDeclarationOrder runPlan [] planResultses now st = ([], Promise now st (Inr ()))"
| "inDeclarationOrder runPlan (sideEffectPlan # rest) planResultses now st =
     (let settled = runPlan sideEffectPlan planResultses now st
      in case settledWith settled of
           Inl e \<Rightarrow> ([(sideEffectPlan, now, settledAt settled)], settled)
         | Inr _ \<Rightarrow>
            (case inDeclarationOrder runPlan rest planResultses
                    (settledAt settled) (stateThen settled) of
               (calls, chain) \<Rightarrow> ((sideEffectPlan, now, settledAt settled) # calls, chain)))"

text \<open>
  An example: a mutation field at the root with three side-effect plans, created in the
  order 1, 2, 3, that take 5, 1 and 3 units of time.  The state is the trace of the
  execution: each plan records when it was called and when its promise was settled, and
  the layers of the field record when they were started.
\<close>

datatype event = Started planId nat | Completed planId nat | LayersStarted nat

definition effect_plan :: "planId \<Rightarrow> plan" where
  "effect_plan i = \<lparr>plan_id = i, kind = OtherPlan ''MutationPlan'', dependencies = [],
     hasSideEffects = True, parentPathIdentity = ''~'',
     commonAncestorPathIdentity = ''~'', sync = False, properties = []\<rparr>"

definition root_row :: PlanResults where
  "root_row = (\<lambda>pathIdentity. 20)"

definition effect_latency :: "planId \<Rightarrow> nat" where
  "effect_latency i = (if i = 1 then 5 else if i = 2 then 1 else 3)"

definition effect_runPlan :: "plan \<Rightarrow> row list \<Rightarrow> nat \<Rightarrow> event list \<Rightarrow> (event list, unit) promise" where
  "effect_runPlan p planResultses now trace =
     Promise (now + effect_latency (plan_id p))
       (trace @ [Started (plan_id p) now, Completed (plan_id p) (now + effect_latency (plan_id p))])
       (Inr ())"

definition effect_layers :: "nat \<Rightarrow> event list \<Rightarrow> (event list, val list) promise" where
  "effect_layers now trace = Promise now (trace @ [LayersStarted now]) (Inr [Data 1])"

section \<open>Theorems\<close>

text \<open>
  C7: adding a plan succeeds exactly in the phases plan, validate, deduplicate and
  optimize (the plan is then stored under the returned id); in the phases init,
  finalize and ready it throws and leaves the compiler state, and so the plan table,
  as it was.
\<close>

theorem addPlan_phase:
  "(\<exists>i. fst (addPlan p a) = Inr i \<and> plans_get (snd (addPlan p a)) i = Some (Some p))
     = (phase a \<in> {PhasePlan, PhaseValidate, PhaseDeduplicate, PhaseOptimize})
   \<and> ((\<exists>e. fst (addPlan p a) = Inl e \<and> snd (addPlan p a) = a)
     = (phase a \<in> {PhaseInit, PhaseFinalize, PhaseReady}))"
  by (cases "phase a") (simp_all add: addPlan_def plans_get_def plans_set_def Let_def update_Some_unfold)

subsection \<open>Tree shaking computes reachability\<close>

lemma plansAt_simps [simp]:
  "plansAt a [] = {}"
  "plansAt a (xs @ ys) = plansAt a xs \<union> plansAt a ys"
  by (auto simp: plansAt_def)

lemma plansAt_Cons: "plansAt a (i # is) = (case plans_get a i of Some (Some p) \<Rightarrow> insert p (plansAt a is) | _ \<Rightarrow> plansAt a is)"
  by (auto simp: plansAt_def split: option.splits)

lemma reachableFrom_mono: "S \<subseteq> T \<Longrightarrow> reachableFrom a S \<subseteq> reachableFrom a T"
  by (auto simp: reachableFrom_def)

lemma reachableFrom_refl: "S \<subseteq> reachableFrom a S"
  by (auto simp: reachableFrom_def)

lemma reachableFrom_deps:
  "p \<in> reachableFrom a S \<Longrightarrow> plansAt a (dependencies p) \<subseteq> reachableFrom a S"
  unfolding reachableFrom_def plansAt_def dependencyEdge_def
  apply auto
  by (metis (mono_tags, lifting) rtranclp.rtrancl_into_rtrancl)

lemma markStack_sound_complete:
  "markStack a todo act = Inr act' \<Longrightarrow>
   (\<forall>p \<in> act. plansAt a (dependencies p) \<subseteq> act \<union> plansAt a todo) \<Longrightarrow>
   act \<subseteq> reachableFrom a S \<Longrightarrow> plansAt a todo \<subseteq> reachableFrom a S \<Longrightarrow>
     act \<subseteq> act' \<and> plansAt a todo \<subseteq> act'
     \<and> (\<forall>p \<in> act'. plansAt a (dependencies p) \<subseteq> act')
     \<and> act' \<subseteq> reachableFrom a S"
proof (induction a todo act rule: markStack.induct)
  case (1 a activePlans)
  then show ?case by auto
next
  case (2 a i todo activePlans)
  then obtain p where p: "plans_get a i = Some (Some p)"
    by (auto split: option.splits)
  have todo_eq: "plansAt a (i # todo) = insert p (plansAt a todo)"
    using p by (simp add: plansAt_Cons)
  show ?case
  proof (cases "p \<in> activePlans")
    case True
    have run: "markStack a todo activePlans = Inr act'"
      using "2.prems"(1) p True by simp
    have inv: "\<forall>q \<in> activePlans. plansAt a (dependencies q) \<subseteq> activePlans \<union> plansAt a todo"
      using "2.prems"(2) True unfolding todo_eq by auto
    have todo_r: "plansAt a todo \<subseteq> reachableFrom a S"
      using "2.prems"(4) unfolding todo_eq by auto
    from "2.IH"(1)[OF p refl True run inv "2.prems"(3) todo_r] True
    show ?thesis unfolding todo_eq by auto
  next
    case False
    have pr: "p \<in> reachableFrom a S"
      using "2.prems"(4) unfolding todo_eq by auto
    have run: "markStack a (dependencies p @ todo) (insert p activePlans) = Inr act'"
      using "2.prems"(1) p False by simp
    have inv: "\<forall>q \<in> insert p activePlans.
        plansAt a (dependencies q) \<subseteq> insert p activePlans \<union> plansAt a (dependencies p @ todo)"
      using "2.prems"(2) unfolding todo_eq by auto
    have act_r: "insert p activePlans \<subseteq> reachableFrom a S"
      using "2.prems"(3) pr by auto
    have todo_r: "plansAt a (dependencies p @ todo) \<subseteq> reachableFrom a S"
      using "2.prems"(4) reachableFrom_deps[OF pr] unfolding todo_eq by auto
    from "2.IH"(2)[OF p refl False run inv act_r todo_r]
    show ?thesis unfolding todo_eq by auto
  qed
qed

lemma markPlanActive_markStack:
  "markPlanActive a (plans_get a i) act = markStack a [i] act"
  by (simp add: markPlanActive_def split: option.splits)

lemma markStack_step:
  assumes "markStack a todo act = Inr act'" "closedUnderDependencies a act"
    "act \<subseteq> reachableFrom a S" "plansAt a todo \<subseteq> reachableFrom a S"
  shows "act \<subseteq> act' \<and> plansAt a todo \<subseteq> act' \<and> closedUnderDependencies a act'
     \<and> act' \<subseteq> reachableFrom a S"
proof -
  have "\<forall>p \<in> act. plansAt a (dependencies p) \<subseteq> act \<union> plansAt a todo"
    using assms(2) by (auto simp: closedUnderDependencies_def)
  from markStack_sound_complete[OF assms(1) this assms(3,4)]
  show ?thesis by (simp add: closedUnderDependencies_def)
qed

lemma markSeeds_step:
  "markSeeds a seeds act = Inr act' \<Longrightarrow> closedUnderDependencies a act \<Longrightarrow>
   act \<subseteq> reachableFrom a S \<Longrightarrow> plansAt a (seedIds seeds) \<subseteq> reachableFrom a S \<Longrightarrow>
     act \<subseteq> act' \<and> plansAt a (seedIds seeds) \<subseteq> act' \<and> closedUnderDependencies a act'
     \<and> act' \<subseteq> reachableFrom a S"
proof (induction a seeds act rule: markSeeds.induct)
  case (1 a activePlans)
  then show ?case by simp
next
  case (2 a rest activePlans)
  then show ?case by simp
next
  case (3 a planId rest activePlans)
  from "3.prems"(1) obtain mid where
    mid: "markStack a [planId] activePlans = Inr mid" and rest: "markSeeds a rest mid = Inr act'"
    and notdev: "\<not> (isDev a \<and> \<not> isPlan (plans_get a planId))"
    by (auto simp: bindE_def markPlanActive_markStack split: if_splits sum.splits)
  have here: "plansAt a [planId] \<subseteq> reachableFrom a S" and there: "plansAt a (seedIds rest) \<subseteq> reachableFrom a S"
    using "3.prems"(4) by (auto simp: plansAt_def)
  from markStack_step[OF mid "3.prems"(2,3) here]
  have m: "activePlans \<subseteq> mid" "plansAt a [planId] \<subseteq> mid" "closedUnderDependencies a mid"
    "mid \<subseteq> reachableFrom a S" by auto
  from "3.IH"[OF notdev] rest m(3,4) there
  have "mid \<subseteq> act' \<and> plansAt a (seedIds rest) \<subseteq> act' \<and> closedUnderDependencies a act'
     \<and> act' \<subseteq> reachableFrom a S"
    by (auto simp: bindE_def markPlanActive_markStack mid)
  with m show ?case by (auto simp: plansAt_def)
qed

lemma closed_reachable:
  assumes "closedUnderDependencies a act" "S \<subseteq> act"
  shows "reachableFrom a S \<subseteq> act"
proof
  fix q assume "q \<in> reachableFrom a S"
  then obtain s where s: "s \<in> S" and r: "(dependencyEdge a)\<^sup>*\<^sup>* s q"
    by (auto simp: reachableFrom_def)
  from r show "q \<in> act"
  proof (induction rule: rtranclp_induct)
    case base
    then show ?case using s assms(2) by auto
  next
    case (step y z)
    then show ?case using assms(1)
      by (auto simp: closedUnderDependencies_def dependencyEdge_def plansAt_def)
  qed
qed

lemma plans_get_plans_set [simp]:
  "plans_get (plans_set j v a) i = (if i = j then Some v else plans_get a i)"
  by (simp add: plans_get_def plans_set_def update_conv)

lemma plans_get_sweepSlot:
  "plans_get (sweepSlot act j a) i = (if i = j then sweptSlot act (plans_get a j) else plans_get a i)"
  by (auto simp: sweepSlot_def sweptSlot_def split: option.splits)

lemma sweptSlot_idem [simp]: "sweptSlot act (sweptSlot act slot) = sweptSlot act slot"
  by (auto simp: sweptSlot_def split: option.splits)

lemma plans_get_fold_sweepSlot:
  "plans_get (fold (sweepSlot act) ids a) i
     = (if i \<in> set ids then sweptSlot act (plans_get a i) else plans_get a i)"
  by (induction ids arbitrary: a) (auto simp: plans_get_sweepSlot)

lemma sweepSlot_only_plans: "\<exists>t. sweepSlot act j a = a\<lparr>plans := t\<rparr>"
proof (cases "sweepSlot act j a = a")
  case True
  then have "sweepSlot act j a = a\<lparr>plans := plans a\<rparr>" by simp
  then show ?thesis ..
next
  case False
  then have "sweepSlot act j a = plans_set j None a"
    by (auto simp: sweepSlot_def split: option.splits if_splits)
  then show ?thesis by (auto simp: plans_set_def)
qed

lemma fold_sweepSlot_only_plans: "\<exists>t. fold (sweepSlot act) ids a = a\<lparr>plans := t\<rparr>"
proof (induction ids arbitrary: a)
  case Nil
  have "fold (sweepSlot act) [] a = a\<lparr>plans := plans a\<rparr>" by simp
  then show ?case ..
next
  case (Cons j ids)
  obtain t where t: "sweepSlot act j a = a\<lparr>plans := t\<rparr>"
    using sweepSlot_only_plans by blast
  obtain t' where "fold (sweepSlot act) ids (a\<lparr>plans := t\<rparr>) = a\<lparr>plans := t\<rparr>\<lparr>plans := t'\<rparr>"
    using Cons.IH by blast
  then have "fold (sweepSlot act) (j # ids) a = a\<lparr>plans := t'\<rparr>"
    using t by simp
  then show ?case ..
qed

lemma seedIds_map_Some [simp]: "seedIds (map Some xs) = xs"
  by (induction xs) auto

lemma seedIds_map_Some_comp [simp]: "seedIds (map (Some \<circ> f) xs) = map f xs"
  by (induction xs) auto

lemma treeShakePlans_active:
  assumes "treeShakePlans a = Inr a'"
  shows "a' = fold (sweepSlot (reachablePlans a)) (getPlanIds a 0) a"
proof -
  let ?S = "plansAt a (seedPlanIds a)"
  let ?R = "reachableFrom a ?S"
  let ?sub = "case subscriptionItemPlanId a of Some i \<Rightarrow> [i] | None \<Rightarrow> []"
  let ?items = "map snd (itemPlanIdByFieldPathIdentity a)"
  let ?effects = "map Some (concat (map snd (sideEffectPlanIdsByPathIdentity a)))"
  let ?transforms = "map (Some \<circ> snd) (transformDependencyPlanIdByTransformPlanId a)"
  from assms obtain act1 act2 act3 act4 where
    s1: "markStack a ?sub {} = Inr act1"
    and s2: "markSeeds a ?items act1 = Inr act2"
    and s3: "markSeeds a ?effects act2 = Inr act3"
    and s4: "markSeeds a ?transforms act3 = Inr act4"
    and a': "a' = fold (sweepSlot act4) (getPlanIds a 0) a"
    by (auto simp: treeShakePlans_def bindE_def markPlanActive_markStack
        split: sum.splits option.splits)
  have S: "?S = plansAt a ?sub \<union> plansAt a (seedIds ?items) \<union> plansAt a (seedIds ?effects)
      \<union> plansAt a (seedIds ?transforms)"
    by (simp add: seedPlanIds_def Un_assoc)
  have SR: "?S \<subseteq> ?R" by (rule reachableFrom_refl)
  have c0: "closedUnderDependencies a {}" by (simp add: closedUnderDependencies_def)
  from markStack_step[OF s1 c0, of ?S] S SR
  have 1: "plansAt a ?sub \<subseteq> act1" "closedUnderDependencies a act1" "act1 \<subseteq> ?R" by auto
  from markSeeds_step[OF s2 1(2,3)] S SR
  have 2: "act1 \<subseteq> act2" "plansAt a (seedIds ?items) \<subseteq> act2" "closedUnderDependencies a act2"
    "act2 \<subseteq> ?R" by auto
  from markSeeds_step[OF s3 2(3,4)] S SR
  have 3: "act2 \<subseteq> act3" "plansAt a (seedIds ?effects) \<subseteq> act3" "closedUnderDependencies a act3"
    "act3 \<subseteq> ?R" by auto
  from markSeeds_step[OF s4 3(3,4)] S SR
  have 4: "act3 \<subseteq> act4" "plansAt a (seedIds ?transforms) \<subseteq> act4" "closedUnderDependencies a act4"
    "act4 \<subseteq> ?R" by auto
  have "?S \<subseteq> act4" using S 1 2 3 4 by blast
  from closed_reachable[OF 4(3) this] 4(4) have "act4 = ?R" by auto
  then show ?thesis using a' by (simp add: reachablePlans_def)
qed

text \<open>
  C2: when \<^verbatim>\<open>treeShakePlans\<close> has run, a slot of the plan table still holds its plan
  exactly if that plan is reachable from the seeds (the subscription item plan, the item
  plans of the field paths, the side-effect plans, the transform dependencies) along
  dependency edges; every other slot that held a plan holds \<^verbatim>\<open>null\<close>; nothing else
  of the compiler state changes.
\<close>

theorem treeShakePlans_reachable:
  assumes "treeShakePlans a = Inr a'"
  shows "(\<forall>i. plans_get a' i =
            (case plans_get a i of
               Some (Some p) \<Rightarrow> if p \<in> reachablePlans a then Some (Some p) else Some None
             | slot \<Rightarrow> slot))
         \<and> a' = a\<lparr>plans := plans a'\<rparr>"
proof -
  have a': "a' = fold (sweepSlot (reachablePlans a)) (getPlanIds a 0) a"
    using assms by (rule treeShakePlans_active)
  have "plans_get a' i = sweptSlot (reachablePlans a) (plans_get a i)" for i
  proof (cases "i \<in> set (getPlanIds a 0)")
    case True
    then show ?thesis by (simp add: a' plans_get_fold_sweepSlot)
  next
    case False
    then have "plans_get a i = None"
      by (simp add: getPlanIds_def plans_get_def map_of_eq_None_iff)
    then show ?thesis using False by (simp add: a' plans_get_fold_sweepSlot sweptSlot_def)
  qed
  moreover obtain t where "a' = a\<lparr>plans := t\<rparr>"
    using fold_sweepSlot_only_plans a' by blast
  then have "a' = a\<lparr>plans := plans a'\<rparr>" by (metis aether.select_convs(4) aether.surjective aether.update_convs(4))
  ultimately show ?thesis by (auto simp: sweptSlot_def split: option.splits)
qed

lemma shake_plans_distinct:
  "shake_plan1 \<noteq> shake_plan2" "shake_plan1 \<noteq> shake_plan3" "shake_plan2 \<noteq> shake_plan3"
  "shake_plan2 \<noteq> shake_plan1" "shake_plan3 \<noteq> shake_plan1" "shake_plan3 \<noteq> shake_plan2"
  by (simp_all add: shake_plan1_def shake_plan2_def shake_plan3_def)

lemma shake_plans_dependencies:
  "dependencies shake_plan1 = []" "dependencies shake_plan2 = [1]" "dependencies shake_plan3 = [1]"
  by (simp_all add: shake_plan1_def shake_plan2_def shake_plan3_def)

lemma shake_aether_run:
  "treeShakePlans shake_aether
     = Inr (shake_aether\<lparr>plans := [(1, Some shake_plan1), (2, Some shake_plan2), (3, None)]\<rparr>)"
  by (simp add: treeShakePlans_def shake_aether_def bindE_def markPlanActive_def plans_get_def
      getPlanIds_def sweepSlot_def plans_set_def shake_plans_distinct shake_plans_dependencies)

theorem treeShakePlans_reachable_witness:
  "treeShakePlans shake_aether
     = Inr (shake_aether\<lparr>plans := [(1, Some shake_plan1), (2, Some shake_plan2), (3, None)]\<rparr>)
   \<and> shake_plan3 \<notin> reachablePlans shake_aether
   \<and> shake_plan2 \<in> reachablePlans shake_aether"
proof -
  let ?a' = "shake_aether\<lparr>plans := [(1, Some shake_plan1), (2, Some shake_plan2), (3, None)]\<rparr>"
  from treeShakePlans_reachable[OF shake_aether_run]
  have slots: "plans_get ?a' i =
            (case plans_get shake_aether i of
               Some (Some p) \<Rightarrow> if p \<in> reachablePlans shake_aether then Some (Some p) else Some None
             | slot \<Rightarrow> slot)" for i
    by blast
  have "shake_plan3 \<notin> reachablePlans shake_aether"
    using slots[of 3] by (auto simp: plans_get_def shake_aether_def split: if_splits)
  moreover have "shake_plan2 \<in> reachablePlans shake_aether"
    using slots[of 2] by (auto simp: plans_get_def shake_aether_def split: if_splits)
  ultimately show ?thesis using shake_aether_run by simp
qed

subsection \<open>Processing the plans\<close>

lemma processFirst_from_process:
  assumes P: "\<And>slot st st'. process n ord cb orp slot st = Some (Inr st') \<Longrightarrow> R st st'"
    and refl: "\<And>st. R st st"
    and trans: "\<And>s1 s2 s3. R s1 s2 \<Longrightarrow> R s2 s3 \<Longrightarrow> R s1 s3"
  shows "processFirst n ord cb orp p first st = Some (Inr (b, st')) \<Longrightarrow> R st st'"
proof (induction first arbitrary: st)
  case Nil
  then show ?case using refl by simp
next
  case (Cons depId first)
  show ?case
  proof (cases "\<exists>depPlan. plans_get (fst st) depId = Some (Some depPlan) \<and> depPlan \<notin> fst (snd st)")
    case False
    then have "processFirst n ord cb orp p first st = Some (Inr (b, st'))"
      using Cons.prems by (auto split: option.splits if_splits)
    then show ?thesis by (rule Cons.IH)
  next
    case True
    then obtain depPlan where dp: "plans_get (fst st) depId = Some (Some depPlan)"
      "depPlan \<notin> fst (snd st)" by auto
    from Cons.prems dp obtain st1 where
      pr: "process n ord cb orp (Some (Some depPlan)) st = Some (Inr st1)"
      by (auto split: option.splits sum.splits)
    have r1: "R st st1" using pr by (rule P)
    show ?thesis
    proof (cases "shouldAbort (fst st1) p")
      case True
      then have "st' = st1" using Cons.prems dp pr by simp
      then show ?thesis using r1 by simp
    next
      case False
      then have "processFirst n ord cb orp p first st1 = Some (Inr (b, st'))"
        using Cons.prems dp pr by simp
      then have "R st1 st'" by (rule Cons.IH)
      with r1 show ?thesis by (rule trans)
    qed
  qed
qed

lemma process_rel:
  assumes step: "\<And>p st st'. applyCallback cb orp p st = Inr st' \<Longrightarrow> R st st'"
    and refl: "\<And>st. R st st"
    and trans: "\<And>s1 s2 s3. R s1 s2 \<Longrightarrow> R s2 s3 \<Longrightarrow> R s1 s3"
  shows "process n ord cb orp slot st = Some (Inr st') \<Longrightarrow> R st st'"
proof (induction n arbitrary: slot st st')
  case 0
  then show ?case by simp
next
  case (Suc n)
  show ?case
  proof (cases "\<exists>p. slot = Some (Some p) \<and> p \<notin> fst (snd st)")
    case False
    then have "st' = st" using Suc.prems by (auto split: option.splits if_splits)
    then show ?thesis using refl by simp
  next
    case True
    then obtain p where p: "slot = Some (Some p)" "p \<notin> fst (snd st)" by auto
    from Suc.prems p obtain first where first: "firstIds ord (fst st) p = Inr first"
      by (auto split: sum.splits)
    from Suc.prems p first obtain b st1 where
      pf: "processFirst n ord cb orp p first st = Some (Inr (b, st1))"
      by (auto split: sum.splits option.splits)
    have r1: "R st st1"
      by (rule processFirst_from_process[where R = R, OF Suc.IH refl trans pf])
    show ?thesis
    proof (cases b)
      case True
      then have "st' = st1" using Suc.prems p first pf by simp
      then show ?thesis using r1 by simp
    next
      case False
      then have "applyCallback cb orp p st1 = Inr st'" using Suc.prems p first pf by simp
      then have "R st1 st'" by (rule step)
      with r1 show ?thesis by (rule trans)
    qed
  qed
qed

lemma processIds_rel:
  assumes step: "\<And>p st st'. applyCallback cb orp p st = Inr st' \<Longrightarrow> R st st'"
    and refl: "\<And>st. R st st"
    and trans: "\<And>s1 s2 s3. R s1 s2 \<Longrightarrow> R s2 s3 \<Longrightarrow> R s1 s3"
  shows "processIds n ord cb orp ids st = Some (Inr st') \<Longrightarrow> R st st'"
proof (induction ids arbitrary: st)
  case Nil
  then show ?case using refl by simp
next
  case (Cons i ids)
  from Cons.prems obtain st1 where
    pr: "process n ord cb orp (plans_get (fst st) i) st = Some (Inr st1)"
    and rest: "processIds n ord cb orp ids st1 = Some (Inr st')"
    by (auto split: option.splits sum.splits)
  have "R st st1" by (rule process_rel[where R = R, OF step refl trans pr])
  moreover have "R st1 st'" using rest by (rule Cons.IH)
  ultimately show ?case by (rule trans)
qed

lemma finalizeArgumentsSince_Inr: "finalizeArgumentsSince a k = Inr a' \<Longrightarrow> a' = a"
  by (auto simp: finalizeArgumentsSince_def split: list.splits)

lemma deduplicateCallback_counts:
  assumes "applyCallback (deduplicateCallback h) None p st = Inr st'"
  shows "unchangedUnlessCounted st st'"
proof -
  obtain a processed c where st: "st = (a, processed, c)" by (cases st) auto
  from assms st obtain r where r: "fst (deduplicatePlan h a p) = Inr r"
    by (auto simp: applyCallback_def deduplicateCallback_def split: sum.splits)
  from assms st r have fin: "finalizeArgumentsSince a (planCount a) = Inr a"
    by (auto simp: applyCallback_def deduplicateCallback_def dest: finalizeArgumentsSince_Inr split: sum.splits)
  show ?thesis
    using assms st r fin
    by (auto simp: applyCallback_def deduplicateCallback_def unchangedUnlessCounted_def split: if_splits)
qed

lemma deduplicatePass_zero:
  assumes "deduplicatePass n h offset a = Some (Inr (a', 0))"
  shows "a' = a"
proof -
  from assms obtain processed where
    run: "processIds n DependenciesFirst (deduplicateCallback h) None (getPlanIds a offset) (a, {}, 0)
            = Some (Inr (a', processed, 0))"
    by (auto simp: deduplicatePass_def processPlans_def split: option.splits sum.splits if_splits)
  have "unchangedUnlessCounted (a, {}, 0) (a', processed, 0)"
  proof (rule processIds_rel[where R = unchangedUnlessCounted, OF _ _ _ run])
    show "unchangedUnlessCounted st st'"
      if "applyCallback (deduplicateCallback h) None p st = Inr st'" for p st st'
      using that by (rule deduplicateCallback_counts)
  qed (auto simp: unchangedUnlessCounted_def)
  then show ?thesis by (simp add: unchangedUnlessCounted_def)
qed

lemma deduplicateLoop_fixpoint:
  "deduplicateLoop n h offset loops a = Some (Inr a') \<Longrightarrow>
     deduplicatePass n h offset a' = Some (Inr (a', 0))"
proof (induction n h offset loops a rule: deduplicateLoop.induct)
  case (1 n h offset loops a)
  from "1.prems" have le: "\<not> loops > 10000"
    by (subst (asm) deduplicateLoop.simps) (auto split: if_splits)
  from "1.prems" le obtain a1 replacements where
    pass: "deduplicatePass n h offset a = Some (Inr (a1, replacements))"
    by (subst (asm) deduplicateLoop.simps) (auto split: option.splits sum.splits)
  show ?case
  proof (cases "replacements > 0")
    case True
    then have "deduplicateLoop n h offset (loops + 1) a1 = Some (Inr a')"
      using "1.prems" le pass by (subst (asm) deduplicateLoop.simps) simp
    from "1.IH"[OF le pass refl refl True this] show ?thesis .
  next
    case False
    then have "a' = a1" using "1.prems" le pass by (subst (asm) deduplicateLoop.simps) simp
    moreover have "a1 = a" using pass False by (auto dest: deduplicatePass_zero)
    ultimately show ?thesis using pass False by simp
  qed
qed

declare deduplicateLoop.simps [simp del]

text \<open>
  C3: once the deduplication loop has ended, which it does after a pass that reports
  zero replacements, a further pass over the resulting state reports zero replacements
  and returns that state unchanged, and so does a further run of the whole loop.
\<close>

theorem deduplicatePlans_idempotent:
  assumes "deduplicatePlans n h offset a = Some (Inr a')"
  shows "deduplicatePass n h offset a' = Some (Inr (a', 0))
       \<and> deduplicatePlans n h offset a' = Some (Inr a')"
proof -
  have pass: "deduplicatePass n h offset a' = Some (Inr (a', 0))"
    using assms unfolding deduplicatePlans_def by (rule deduplicateLoop_fixpoint)
  then have "deduplicatePlans n h offset a' = Some (Inr a')"
    unfolding deduplicatePlans_def by (subst deduplicateLoop.simps) simp
  with pass show ?thesis by simp
qed

lemma example_plans_distinct:
  "shake_plan2 \<noteq> chain_plan3" "chain_plan3 \<noteq> shake_plan2"
  "shake_plan1 \<noteq> chain_plan3" "chain_plan3 \<noteq> shake_plan1"
  by (simp_all add: shake_plan1_def shake_plan2_def chain_plan3_def)

lemma example_plans_fields:
  "plan_id shake_plan1 = 1" "plan_id shake_plan2 = 2" "plan_id shake_plan3 = 3"
  "plan_id chain_plan3 = 3"
  "kind shake_plan1 = ValuePlan" "kind shake_plan2 = OtherPlan ''AccessPlan''"
  "kind shake_plan3 = OtherPlan ''AccessPlan''" "kind chain_plan3 = OtherPlan ''AccessPlan''"
  "dependencies chain_plan3 = [2]"
  "hasSideEffects shake_plan1 = False" "hasSideEffects shake_plan2 = False"
  "hasSideEffects shake_plan3 = False" "hasSideEffects chain_plan3 = False"
  "parentPathIdentity shake_plan1 = []" "parentPathIdentity shake_plan2 = ''~''"
  "parentPathIdentity shake_plan3 = ''~''" "parentPathIdentity chain_plan3 = ''~''"
  by (simp_all add: shake_plan1_def shake_plan2_def shake_plan3_def chain_plan3_def)

lemmas process_defs =
  processPlans_def getPlanIds_def plans_get_def plans_set_def firstIds_def setAdd_def
  applyCallback_def finalizeArgumentsSince_def replaceReferences_def replaceSlot_def
  shouldAbort_def

lemmas example_simps =
  shake_plans_distinct shake_plans_dependencies example_plans_distinct example_plans_fields

lemma dedup_pass1:
  "deduplicatePass (Suc 0) merging_hooks 0 shake_aether = Some (Inr (merged_aether, 1))"
  by (simp add: deduplicatePass_def process_defs deduplicateCallback_def deduplicatePlan_def
      shouldStream_def isPeer_def arraysMatch_def merging_hooks_def shake_aether_def
      merged_aether_def example_simps)

lemma dedup_pass2:
  "deduplicatePass (Suc 0) merging_hooks 0 merged_aether = Some (Inr (merged_aether, 0))"
  by (simp add: deduplicatePass_def process_defs deduplicateCallback_def deduplicatePlan_def
      shouldStream_def isPeer_def arraysMatch_def merging_hooks_def shake_aether_def
      merged_aether_def example_simps)

lemma dedup_run:
  "deduplicatePlans (Suc 0) merging_hooks 0 shake_aether = Some (Inr merged_aether)"
  unfolding deduplicatePlans_def
  by (subst deduplicateLoop.simps, simp add: dedup_pass1, subst deduplicateLoop.simps,
      simp add: dedup_pass2)

theorem deduplicatePlans_idempotent_witness:
  "deduplicatePlans (Suc 0) merging_hooks 0 shake_aether = Some (Inr merged_aether)
   \<and> deduplicatePass (Suc 0) merging_hooks 0 merged_aether = Some (Inr (merged_aether, 0))
   \<and> deduplicatePlans (Suc 0) merging_hooks 0 merged_aether = Some (Inr merged_aether)"
  using deduplicatePlans_idempotent[OF dedup_run] dedup_run by simp

text \<open>
  A plan whose plan options have a stream setting is returned as it is by
  \<^verbatim>\<open>deduplicatePlan\<close>, whatever peers the table holds, and its \<^verbatim>\<open>deduplicate\<close>
  method is not invoked.
\<close>

lemma deduplicatePlan_stream:
  assumes "map_of (planOptionsByPlan a) p = Some planOptions" "stream planOptions \<noteq> None"
  shows "deduplicatePlan h a p = (Inr p, [])"
  using assms by (simp add: deduplicatePlan_def shouldStream_def)

lemmas dedup_defs =
  deduplicatePass_def process_defs deduplicateCallback_def deduplicatePlan_def
  shouldStream_def isPeer_def arraysMatch_def merging_hooks_def shake_aether_def
  streamed_aether_def stream_merged_aether_def example_simps

lemma streamed_pass1:
  "deduplicatePass (Suc 0) merging_hooks 0 streamed_aether = Some (Inr (stream_merged_aether, 1))"
  by (simp add: dedup_defs)

lemma streamed_pass2:
  "deduplicatePass (Suc 0) merging_hooks 0 stream_merged_aether = Some (Inr (stream_merged_aether, 0))"
  by (simp add: dedup_defs)

lemma streamed_run:
  "deduplicatePlans (Suc 0) merging_hooks 0 streamed_aether = Some (Inr stream_merged_aether)"
  unfolding deduplicatePlans_def
  by (subst deduplicateLoop.simps, simp add: streamed_pass1, subst deduplicateLoop.simps,
      simp add: streamed_pass2)

text \<open>
  C10: deduplication is skipped for a plan whose plan options have a stream setting, so
  that a streamed plan is never merged with a peer.

  The first half holds: the call of \<^verbatim>\<open>deduplicatePlan\<close> on the streamed plan returns it
  and offers it no peer.  The conclusion fails: the filter that collects the peers of
  another plan leaves out the plans with side effects, not the streamed ones.  In the
  example the plan 2 is streamed and the plan 3 is its peer; \<^verbatim>\<open>deduplicatePlan\<close> on the
  plan 3 offers it the plan 2 and returns the plan 2, and after the deduplication the
  slots 2 and 3 both hold the streamed plan.
\<close>

theorem deduplicatePlans_merges_into_streamed:
  "shouldStream streamed_aether shake_plan2
   \<and> \<not> shouldStream streamed_aether shake_plan3
   \<and> deduplicatePlan merging_hooks streamed_aether shake_plan2 = (Inr shake_plan2, [])
   \<and> findPeers streamed_aether shake_plan3 (plans streamed_aether) {plan_id shake_plan3}
       = [shake_plan2]
   \<and> deduplicatePlan merging_hooks streamed_aether shake_plan3
       = (Inr shake_plan2, [(shake_plan3, [shake_plan2])])
   \<and> deduplicatePlans (Suc 0) merging_hooks 0 streamed_aether = Some (Inr stream_merged_aether)
   \<and> plans_get stream_merged_aether 2 = Some (Some shake_plan2)
   \<and> plans_get stream_merged_aether 3 = Some (Some shake_plan2)"
  using streamed_run by (simp add: dedup_defs)

subsection \<open>Optimisation\<close>


lemma optimizedOnce_plans [simp]: "optimizedOnce (a\<lparr>plans := t\<rparr>) = optimizedOnce a"
  by (simp add: optimizedOnce_def)








lemma plans_get_key: "plans_get a i = Some v \<Longrightarrow> i \<in> set (map fst (plans a))"
  unfolding plans_get_def by (metis map_of_eq_None_iff option.distinct(1) set_map)


lemma keys_plans_set:
  "i \<in> set (map fst (plans a)) \<Longrightarrow> map fst (plans (plans_set i v a)) = map fst (plans a)"
  by (simp add: plans_set_def update_keys)

lemma keys_replaceSlot [simp]:
  "map fst (plans (replaceSlot p r j a)) = map fst (plans a)"
  by (auto simp: replaceSlot_def keys_plans_set dest: plans_get_key split: option.splits)

lemma keys_fold_replaceSlot [simp]:
  "map fst (plans (fold (replaceSlot p r) ids a)) = map fst (plans a)"
  by (induction ids arbitrary: a) simp_all

lemma keys_sweepSlot [simp]:
  "map fst (plans (sweepSlot act j a)) = map fst (plans a)"
  by (auto simp: sweepSlot_def keys_plans_set dest: plans_get_key split: option.splits)

lemma keys_fold_sweepSlot [simp]:
  "map fst (plans (fold (sweepSlot act) ids a)) = map fst (plans a)"
  by (induction ids arbitrary: a) simp_all


lemma replacedSlot_idem [simp]:
  "replacedSlot p r (replacedSlot p r slot) = replacedSlot p r slot"
  by (auto simp: replacedSlot_def split: option.splits)



























subsection \<open>Validation\<close>

lemma illegalReferences_empty:
  "(illegalReferences p props = []) = (\<forall>key val. (key, PlanReference val) \<notin> set props)"
proof (induction p props rule: illegalReferences.induct)
  case (1 p)
  then show ?case by simp
next
  case (2 p key val props)
  then show ?case by auto
next
  case (3 p key props)
  then show ?case by auto
qed

lemma illegalReferences_kind:
  "e \<in> set (illegalReferences p props) \<Longrightarrow> \<exists>key val. e = IllegalPlanReference (plan_id p) key val"
  by (induction p props rule: illegalReferences.induct) auto

lemma validationErrors_empty:
  "(validationErrors a ids = []) = (\<not> offendingPlan a ids)"
proof (induction ids)
  case Nil
  then show ?case by (simp add: offendingPlan_def)
next
  case (Cons i ids)
  have split: "offendingPlan a (i # ids) =
      ((\<exists>p. plans_get a i = Some (Some p) \<and> kind p \<noteq> TrackedObjectPlan \<and> holdsPlanReference p)
       \<or> offendingPlan a ids)"
    by (auto simp: offendingPlan_def)
  show ?case
    unfolding split using Cons.IH
    by (auto simp: illegalReferences_empty holdsPlanReference_def split: option.splits)
qed

lemma validationErrors_kind:
  "e \<in> set (validationErrors a ids) \<Longrightarrow> \<exists>i key val. e = IllegalPlanReference i key val"
  by (induction ids) (auto dest: illegalReferences_kind split: option.splits if_splits)

text \<open>
  C9, as the code has it: validation of the whole table throws an illegal-reference
  error exactly if some plan of the table that is not a \<^verbatim>\<open>__TrackedObjectPlan\<close> holds a
  direct reference to a plan in one of its properties; otherwise validation raises
  nothing of its own and goes on to the assignment of the group ids.
\<close>

theorem validatePlans_references:
  "(offendingPlan a (getPlanIds a 0) \<longrightarrow>
      (\<exists>i key val. validatePlans assignGroupIds a 0 = Inl (IllegalPlanReference i key val)))
   \<and> (\<not> offendingPlan a (getPlanIds a 0) \<longrightarrow>
      validatePlans assignGroupIds a 0 = assignGroupIds a 0)"
proof (cases "validationErrors a (getPlanIds a 0)")
  case Nil
  then show ?thesis
    using validationErrors_empty[of a "getPlanIds a 0"] by (simp add: validatePlans_def)
next
  case (Cons e errors)
  then have "e \<in> set (validationErrors a (getPlanIds a 0))" by simp
  then obtain i key val where "e = IllegalPlanReference i key val"
    using validationErrors_kind by blast
  then show ?thesis
    using Cons validationErrors_empty[of a "getPlanIds a 0"] by (simp add: validatePlans_def)
qed

text \<open>
  C9 as stated fails: a \<^verbatim>\<open>__TrackedObjectPlan\<close> holds a direct reference to the value
  plan it tracks, and validation passes.
\<close>

theorem validatePlans_tracked_counterexample:
  "plans_get tracked_aether 2 = Some (Some tracked_plan)
   \<and> (''valuePlan'', PlanReference 1) \<in> set (properties tracked_plan)
   \<and> validatePlans (\<lambda>a offset. Inr a) tracked_aether 0 = Inr tracked_aether"
  by (simp add: validatePlans_def getPlanIds_def plans_get_def tracked_aether_def
      tracked_plan_def shake_plan1_def)

theorem validatePlans_references_witness:
  "offendingPlan pointing_aether (getPlanIds pointing_aether 0)
   \<and> validatePlans (\<lambda>a offset. Inr a) pointing_aether 0 = Inl (IllegalPlanReference 3 ''parentPlan'' 1)
   \<and> \<not> offendingPlan tracked_aether (getPlanIds tracked_aether 0)
   \<and> validatePlans (\<lambda>a offset. Inr a) tracked_aether 0 = Inr tracked_aether"
proof -
  have 1: "offendingPlan pointing_aether (getPlanIds pointing_aether 0)"
    unfolding offendingPlan_def
    by (rule exI[of _ 3], rule exI[of _ pointing_plan])
       (auto simp add: getPlanIds_def plans_get_def pointing_aether_def pointing_plan_def
         holdsPlanReference_def)
  have 2: "validatePlans (\<lambda>a offset. Inr a) pointing_aether 0 = Inl (IllegalPlanReference 3 ''parentPlan'' 1)"
    by (simp add: validatePlans_def getPlanIds_def plans_get_def pointing_aether_def
        pointing_plan_def tracked_plan_def shake_plan1_def)
  have 3: "validatePlans (\<lambda>a offset. Inr a) tracked_aether 0 = Inr tracked_aether"
    by (simp add: validatePlans_def getPlanIds_def plans_get_def tracked_aether_def
      tracked_plan_def shake_plan1_def)
  from validatePlans_references[of tracked_aether "\<lambda>a offset. Inr a"] 3
  have 4: "\<not> offendingPlan tracked_aether (getPlanIds tracked_aether 0)"
    by auto
  from validatePlans_references[of pointing_aether "\<lambda>a offset. Inr a"] 1 2 3 4
  show ?thesis by simp
qed

subsection \<open>The common ancestor\<close>

declare matchLoop.simps [simp del]

lemma matchLoop_result:
  "matchLoop firstPath otherPaths i d = r \<Longrightarrow> \<forall>j < i. agreeAt firstPath otherPaths j \<Longrightarrow>
   d = (if i = 0 then None else Some (i - 1)) \<Longrightarrow>
   (case r of None \<Rightarrow> \<not> agreeAt firstPath otherPaths 0
    | Some k \<Rightarrow> (\<forall>j \<le> k. agreeAt firstPath otherPaths j) \<and> \<not> agreeAt firstPath otherPaths (Suc k))"
proof (induction firstPath otherPaths i d rule: matchLoop.induct)
  case (1 firstPath otherPaths i d)
  show ?case
  proof (cases "agreeAt firstPath otherPaths i")
    case True
    then have run: "matchLoop firstPath otherPaths (i + 1) (Some i) = r"
      using "1.prems"(1) by (subst (asm) matchLoop.simps) (simp add: agreeAt_def)
    have all: "\<forall>j < i + 1. agreeAt firstPath otherPaths j"
      using "1.prems"(2) True by (auto simp: less_Suc_eq)
    from True have "i < length firstPath"
      "list_all (\<lambda>path. i < length path \<and> path ! i = firstPath ! i) otherPaths"
      by (auto simp: agreeAt_def)
    from "1.IH"[OF this run all] show ?thesis by simp
  next
    case False
    then have "r = d"
      using "1.prems"(1) by (subst (asm) matchLoop.simps) (auto simp: agreeAt_def split: if_splits)
    then show ?thesis
      using False "1.prems"(2,3) by (cases i) (auto simp: less_Suc_eq_le)
  qed
qed

lemma agreeUpTo_agreeAt:
  "agreeUpTo (firstPath # otherPaths) d = (\<forall>j \<le> d. agreeAt firstPath otherPaths j)"
proof
  assume a: "agreeUpTo (firstPath # otherPaths) d"
  show "\<forall>j \<le> d. agreeAt firstPath otherPaths j"
  proof (intro allI impI)
    fix j assume j: "j \<le> d"
    have "j < length path \<and> path ! j = firstPath ! j" if "path \<in> set otherPaths" for path
    proof -
      from a that have len: "d < length path" and eq: "take (Suc d) path = take (Suc d) firstPath"
        by (auto simp: agreeUpTo_def)
      have "path ! j = take (Suc d) path ! j" using j by simp
      also have "\<dots> = firstPath ! j" using j eq by simp
      finally show ?thesis using len j by simp
    qed
    moreover from a have "d < length firstPath" by (auto simp: agreeUpTo_def)
    ultimately show "agreeAt firstPath otherPaths j"
      using j by (auto simp: agreeAt_def list_all_iff)
  qed
next
  assume a: "\<forall>j \<le> d. agreeAt firstPath otherPaths j"
  then have lenf: "d < length firstPath" by (auto simp: agreeAt_def)
  have "d < length path \<and> take (Suc d) path = take (Suc d) firstPath"
    if "path \<in> set otherPaths" for path
  proof -
    from a that have len: "d < length path" by (auto simp: agreeAt_def list_all_iff)
    have "take (Suc d) path ! j = take (Suc d) firstPath ! j" if "j < Suc d" for j
      using a that \<open>path \<in> set otherPaths\<close> by (auto simp: agreeAt_def list_all_iff)
    then have "take (Suc d) path = take (Suc d) firstPath"
      using len lenf by (intro nth_equalityI) auto
    with len show ?thesis by simp
  qed
  then show "agreeUpTo (firstPath # otherPaths) d"
    using lenf by (auto simp: agreeUpTo_def)
qed

lemma agreeUpTo_down:
  "agreeUpTo (firstPath # otherPaths) d \<Longrightarrow> d' \<le> d \<Longrightarrow> agreeUpTo (firstPath # otherPaths) d'"
  unfolding agreeUpTo_agreeAt using order_trans by blast

lemma agreeUpTo_Suc:
  "agreeUpTo (firstPath # otherPaths) (Suc d)
     = (agreeUpTo (firstPath # otherPaths) d \<and> agreeAt firstPath otherPaths (Suc d))"
  unfolding agreeUpTo_agreeAt by (auto simp: le_Suc_eq)

lemma deepest_unique:
  assumes "agreeUpTo (firstPath # otherPaths) d" "\<not> agreeUpTo (firstPath # otherPaths) (Suc d)"
    "agreeUpTo (firstPath # otherPaths) k" "\<not> agreeUpTo (firstPath # otherPaths) (Suc k)"
  shows "d = k"
proof (rule ccontr)
  assume "d \<noteq> k"
  then consider "Suc d \<le> k" | "Suc k \<le> d" by linarith
  then show False
  proof cases
    case 1
    then have "agreeUpTo (firstPath # otherPaths) (Suc d)" using assms(3) by (rule agreeUpTo_down[rotated])
    then show False using assms(2) by simp
  next
    case 2
    then have "agreeUpTo (firstPath # otherPaths) (Suc k)" using assms(1) by (rule agreeUpTo_down[rotated])
    then show False using assms(4) by simp
  qed
qed

lemma matchLoop_deepest:
  "(matchLoop firstPath otherPaths 0 None = Some d)
     = (agreeUpTo (firstPath # otherPaths) d \<and> \<not> agreeUpTo (firstPath # otherPaths) (Suc d))"
    "(matchLoop firstPath otherPaths 0 None = None) = (\<not> agreeUpTo (firstPath # otherPaths) 0)"
proof -
  let ?r = "matchLoop firstPath otherPaths 0 None"
  have res: "case ?r of None \<Rightarrow> \<not> agreeAt firstPath otherPaths 0
    | Some k \<Rightarrow> (\<forall>j \<le> k. agreeAt firstPath otherPaths j) \<and> \<not> agreeAt firstPath otherPaths (Suc k)"
    using matchLoop_result[where i = 0 and d = None and r = ?r and firstPath = firstPath
        and otherPaths = otherPaths, OF refl] by simp
  show "(?r = None) = (\<not> agreeUpTo (firstPath # otherPaths) 0)"
    using res by (cases ?r) (auto simp: agreeUpTo_agreeAt)
  show "(?r = Some d)
     = (agreeUpTo (firstPath # otherPaths) d \<and> \<not> agreeUpTo (firstPath # otherPaths) (Suc d))"
  proof (cases ?r)
    case None
    then have "\<not> agreeUpTo (firstPath # otherPaths) 0" using res by (simp add: agreeUpTo_agreeAt)
    then have "\<not> agreeUpTo (firstPath # otherPaths) d" using agreeUpTo_down by blast
    then show ?thesis using None by simp
  next
    case (Some k)
    then have k: "agreeUpTo (firstPath # otherPaths) k" "\<not> agreeUpTo (firstPath # otherPaths) (Suc k)"
      using res by (auto simp: agreeUpTo_agreeAt agreeUpTo_Suc)
    show ?thesis
    proof
      assume "?r = Some d"
      then have "d = k" using Some by simp
      then show "agreeUpTo (firstPath # otherPaths) d \<and> \<not> agreeUpTo (firstPath # otherPaths) (Suc d)"
        using k by simp
    next
      assume "agreeUpTo (firstPath # otherPaths) d \<and> \<not> agreeUpTo (firstPath # otherPaths) (Suc d)"
      then have "k = d" using deepest_unique[OF k] by blast
      then show "?r = Some d" using Some by simp
    qed
  qed
qed

lemma rev_rootPath:
  "rev (rootPath n) = n # (case parent n of None \<Rightarrow> [] | Some up \<Rightarrow> rev (rootPath up))"
  by (cases n; cases "parent n") auto

lemma ancestorPath_takeWhile:
  "ancestorPath start up path
     = rev (takeWhile (\<lambda>n. startsWith (pathIdentity n) start)
         (case up of None \<Rightarrow> [] | Some q \<Rightarrow> rev (rootPath q))) @ path"
proof (induction start up path rule: ancestorPath.induct)
  case (1 startPathIdentity path)
  then show ?case by simp
next
  case (2 startPathIdentity r f p g up path)
  show ?case
  proof (cases "startsWith p startPathIdentity")
    case True
    then show ?thesis using 2 by (simp add: rev_rootPath[of "TreeNode r f p g up"])
  next
    case False
    then show ?thesis by (simp add: rev_rootPath[of "TreeNode r f p g up"])
  qed
qed

lemma findListChange_ge: "findListChange u vs i = Some k \<Longrightarrow> i \<le> k"
  by (induction u vs i rule: findListChange.induct) (auto split: if_splits)

lemma findListChange_truncate:
  "(case findListChange u vs (Suc i) of Some k \<Rightarrow> take (k - i) (u # vs) | None \<Rightarrow> u # vs)
     = truncateAtList (u # vs)"
proof (induction vs arbitrary: u i)
  case Nil
  then show ?case by simp
next
  case (Cons v vs)
  show ?case
  proof (cases "listBoundary u v")
    case True
    then show ?thesis by simp
  next
    case False
    show ?thesis
    proof (cases "findListChange v vs (Suc (Suc i))")
      case None
      then show ?thesis using False Cons.IH[of v "Suc i"] by simp
    next
      case (Some k)
      then have "Suc (Suc i) \<le> k" by (rule findListChange_ge)
      then have "k - i = Suc (k - Suc i)" by simp
      then show ?thesis using False Some Cons.IH[of v "Suc i"] by simp
    qed
  qed
qed

lemma treeNodePath_usagePath:
  assumes "startsWith (pathIdentity n) start"
  shows "treeNodePath n start = Inr (usagePath start n)"
proof -
  let ?P = "\<lambda>n. startsWith (pathIdentity n) start"
  let ?full = "ancestorPath start (parent n) [n]"
  have full: "?full = rev (takeWhile ?P (rev (rootPath n)))"
    using assms by (simp add: ancestorPath_takeWhile rev_rootPath[of n])
  obtain u vs where uvs: "?full = u # vs"
    by (cases ?full) (auto simp: ancestorPath_takeWhile)
  have "(case listChangeIndex ?full of Some i \<Rightarrow> take i ?full | None \<Rightarrow> ?full)
      = truncateAtList ?full"
    unfolding uvs listChangeIndex_def using findListChange_truncate[of u vs 0]
    by (auto split: option.splits)
  then show ?thesis
    using assms full
    by (auto simp: treeNodePath_def usagePath_def Let_def split: option.splits)
qed

lemma mapE_treeNodePath:
  "\<forall>t \<in> set treeNodes. startsWith (pathIdentity t) start \<Longrightarrow>
   mapE (\<lambda>t. treeNodePath t start) treeNodes = Inr (map (usagePath start) treeNodes)"
  by (induction treeNodes) (auto simp: bindE_def treeNodePath_usagePath)

lemma commonAncestorNode_deepest:
  assumes "treeNodes \<noteq> []"
    and "\<forall>t \<in> set treeNodes. startsWith (pathIdentity t) (parentPathIdentity p)"
  shows "(\<forall>node. (commonAncestorNode p treeNodes = Inr node)
            = deepestCommonNode (map (usagePath (parentPathIdentity p)) treeNodes) node)
       \<and> ((commonAncestorNode p treeNodes = Inl (NoCommonAncestor (plan_id p)))
            = (\<not> agreeUpTo (map (usagePath (parentPathIdentity p)) treeNodes) 0))"
proof -
  let ?paths = "map (usagePath (parentPathIdentity p)) treeNodes"
  obtain firstPath otherPaths where paths: "?paths = firstPath # otherPaths"
    using assms(1) by (cases treeNodes) auto
  have run: "commonAncestorNode p treeNodes =
      (case matchLoop firstPath otherPaths 0 None of
         None \<Rightarrow> Inl (NoCommonAncestor (plan_id p))
       | Some d \<Rightarrow> Inr (firstPath ! d))"
    using mapE_treeNodePath[OF assms(2)] paths by (simp add: commonAncestorNode_def bindE_def)
  have "(commonAncestorNode p treeNodes = Inr node) = deepestCommonNode ?paths node" for node
  proof
    assume "commonAncestorNode p treeNodes = Inr node"
    then obtain d where d: "matchLoop firstPath otherPaths 0 None = Some d" "firstPath ! d = node"
      using run by (auto split: option.splits)
    then show "deepestCommonNode ?paths node"
      unfolding deepestCommonNode_def paths using matchLoop_deepest(1)[of firstPath otherPaths d]
      by auto
  next
    assume "deepestCommonNode ?paths node"
    then obtain d where "agreeUpTo (firstPath # otherPaths) d" "firstPath ! d = node"
      "\<not> agreeUpTo (firstPath # otherPaths) (Suc d)"
      unfolding deepestCommonNode_def paths by auto
    then show "commonAncestorNode p treeNodes = Inr node"
      using run matchLoop_deepest(1)[of firstPath otherPaths d] by simp
  qed
  moreover have "(commonAncestorNode p treeNodes = Inl (NoCommonAncestor (plan_id p)))
            = (\<not> agreeUpTo ?paths 0)"
    unfolding paths using run matchLoop_deepest(2)[of firstPath otherPaths]
    by (auto split: option.splits)
  ultimately show ?thesis by simp
qed

lemma commonAncestorNode_Inr:
  assumes "commonAncestorNode p treeNodes = Inr node"
  shows "deepestCommonNode (map (usagePath (parentPathIdentity p)) treeNodes) node"
proof -
  let ?start = "parentPathIdentity p"
  from assms obtain allPaths where
    paths: "mapE (\<lambda>treeNode. treeNodePath treeNode ?start) treeNodes = Inr allPaths"
    by (cases "mapE (\<lambda>treeNode. treeNodePath treeNode ?start) treeNodes")
      (simp_all add: commonAncestorNode_def bindE_def)
  have starts: "\<forall>t \<in> set treeNodes. startsWith (pathIdentity t) ?start"
    using paths
  proof (induction treeNodes arbitrary: allPaths)
    case Nil
    then show ?case by simp
  next
    case (Cons t ts)
    from Cons.prems obtain path where t: "treeNodePath t ?start = Inr path"
      by (cases "treeNodePath t ?start") (simp_all add: bindE_def)
    with Cons.prems obtain rest where
      "mapE (\<lambda>treeNode. treeNodePath treeNode ?start) ts = Inr rest"
      by (cases "mapE (\<lambda>treeNode. treeNodePath treeNode ?start) ts") (simp_all add: bindE_def)
    then have "\<forall>t \<in> set ts. startsWith (pathIdentity t) ?start" by (rule Cons.IH)
    moreover from t have "startsWith (pathIdentity t) ?start"
      by (auto simp: treeNodePath_def split: if_splits)
    ultimately show ?case by simp
  qed
  have "treeNodes \<noteq> []"
    using assms by (auto simp: commonAncestorNode_def bindE_def)
  from commonAncestorNode_deepest[OF this starts] assms show ?thesis by blast
qed

lemma commonAncestorNode_NoCommonAncestor:
  assumes "commonAncestorNode p treeNodes = Inl (NoCommonAncestor i)"
  shows "i = plan_id p
       \<and> \<not> (\<exists>node. deepestCommonNode (map (usagePath (parentPathIdentity p)) treeNodes) node)"
proof -
  let ?start = "parentPathIdentity p"
  let ?paths = "map (usagePath ?start) treeNodes"
  have starts: "\<forall>t \<in> set treeNodes. startsWith (pathIdentity t) ?start"
  proof (rule ccontr)
    assume "\<not> ?thesis"
    then have "\<exists>a b. mapE (\<lambda>treeNode. treeNodePath treeNode ?start) treeNodes
                 = Inl (TreeNodeOutsideStart a b)"
    proof (induction treeNodes)
      case Nil
      then show ?case by simp
    next
      case (Cons t ts)
      show ?case
      proof (cases "startsWith (pathIdentity t) ?start")
        case False
        then show ?thesis by (simp add: treeNodePath_def bindE_def)
      next
        case True
        with Cons.prems have "\<not> (\<forall>t \<in> set ts. startsWith (pathIdentity t) ?start)" by simp
        from Cons.IH[OF this] True show ?thesis
          by (auto simp: treeNodePath_usagePath bindE_def)
      qed
    qed
    with assms show False by (auto simp: commonAncestorNode_def bindE_def)
  qed
  have ne: "treeNodes \<noteq> []"
    using assms by (auto simp: commonAncestorNode_def bindE_def)
  obtain firstPath otherPaths where paths: "?paths = firstPath # otherPaths"
    using ne by (cases treeNodes) auto
  have i: "i = plan_id p"
    using assms mapE_treeNodePath[OF starts] paths
    by (auto simp: commonAncestorNode_def bindE_def split: option.splits)
  then have "commonAncestorNode p treeNodes = Inl (NoCommonAncestor (plan_id p))"
    using assms by simp
  with commonAncestorNode_deepest[OF ne starts] have no: "\<not> agreeUpTo ?paths 0" by blast
  have "\<not> deepestCommonNode ?paths node" for node
  proof
    assume "deepestCommonNode ?paths node"
    then obtain d where "agreeUpTo (firstPath # otherPaths) d"
      unfolding deepestCommonNode_def paths by blast
    then have "agreeUpTo (firstPath # otherPaths) 0" by (rule agreeUpTo_down) simp
    with no paths show False by simp
  qed
  with i show ?thesis by blast
qed

lemma firstUsages_Cons:
  "firstUsages ((treeNode, q) # calls) p
     = (if q = p then treeNode # firstUsages calls p else firstUsages calls p)"
  by (simp add: firstUsages_def)

lemma map_of_addUsage:
  "map_of (addUsage (treeNode, q) m) p
     = (if q = p
        then Some ((case map_of m p of Some treeNodes \<Rightarrow> treeNodes | None \<Rightarrow> []) @ [treeNode])
        else map_of m p)"
  by (simp add: addUsage_def update_conv')

lemma map_of_fold_addUsage:
  "map_of (fold addUsage calls m) p
     = (if firstUsages calls p = [] then map_of m p
        else Some ((case map_of m p of Some treeNodes \<Rightarrow> treeNodes | None \<Rightarrow> [])
                     @ firstUsages calls p))"
proof (induction calls arbitrary: m)
  case Nil
  then show ?case by (simp add: firstUsages_def)
next
  case (Cons c calls)
  obtain treeNode q where c: "c = (treeNode, q)" by (cases c)
  show ?case
    by (simp add: c Cons.IH firstUsages_Cons map_of_addUsage)
qed

lemma map_of_treeNodesByPlan:
  "map_of (treeNodesByPlan calls) p
     = (if firstUsages calls p = [] then None else Some (firstUsages calls p))"
  by (simp add: treeNodesByPlan_def map_of_fold_addUsage)

lemma distinct_treeNodesByPlan: "distinct (map fst (treeNodesByPlan calls))"
proof -
  have "distinct (map fst m) \<Longrightarrow> distinct (map fst (fold addUsage calls m))" for m
  proof (induction calls arbitrary: m)
    case Nil
    then show ?case by simp
  next
    case (Cons c calls)
    obtain treeNode q where c: "c = (treeNode, q)" by (cases c)
    from Cons.prems have "distinct (map fst (addUsage c m))"
      by (simp add: c addUsage_def distinct_update)
    then show ?case using Cons.IH by simp
  qed
  then show ?thesis by (simp add: treeNodesByPlan_def)
qed

lemma treeNodesByPlan_entry:
  assumes "(p, treeNodes) \<in> set (treeNodesByPlan calls)"
  shows "treeNodes = firstUsages calls p \<and> firstUsages calls p \<noteq> []"
proof -
  from assms distinct_treeNodesByPlan[of calls]
  have "map_of (treeNodesByPlan calls) p = Some treeNodes" by simp
  then show ?thesis by (auto simp: map_of_treeNodesByPlan split: if_splits)
qed

lemma assignedPathIdentities_Inr:
  "assignedPathIdentities entries = Inr assigned
     \<Longrightarrow> (map_of entries p = None \<longrightarrow> map_of assigned p = None)
         \<and> (\<forall>treeNodes. map_of entries p = Some treeNodes \<longrightarrow>
               (\<exists>node. commonAncestorNode p treeNodes = Inr node
                        \<and> map_of assigned p = Some (pathIdentity node)))"
proof (induction entries arbitrary: assigned)
  case Nil
  then show ?case by (simp add: assignedPathIdentities_def)
next
  case (Cons entry entries)
  obtain q treeNodes where entry: "entry = (q, treeNodes)" by (cases entry)
  from Cons.prems obtain node where node: "commonAncestorNode q treeNodes = Inr node"
    by (cases "commonAncestorNode q treeNodes")
      (simp_all add: assignedPathIdentities_def entry bindE_def)
  from Cons.prems node obtain rest where rest: "assignedPathIdentities entries = Inr rest"
    and assigned: "assigned = (q, pathIdentity node) # rest"
    by (cases "assignedPathIdentities entries")
      (auto simp: assignedPathIdentities_def entry bindE_def)
  note ih = Cons.IH[OF rest]
  show ?case
  proof (cases "q = p")
    case True
    with node show ?thesis by (simp add: entry assigned)
  next
    case False
    with ih show ?thesis by (simp add: entry assigned)
  qed
qed

lemma assignedPathIdentities_Inl:
  "assignedPathIdentities entries = Inl e
     \<Longrightarrow> \<exists>p treeNodes. (p, treeNodes) \<in> set entries \<and> commonAncestorNode p treeNodes = Inl e"
proof (induction entries)
  case Nil
  then show ?case by (simp add: assignedPathIdentities_def)
next
  case (Cons entry entries)
  obtain q treeNodes where entry: "entry = (q, treeNodes)" by (cases entry)
  show ?case
  proof (cases "commonAncestorNode q treeNodes")
    case (Inl e')
    with Cons.prems have "e' = e"
      by (simp add: assignedPathIdentities_def entry bindE_def)
    with Inl entry show ?thesis by auto
  next
    case (Inr node)
    with Cons.prems have "assignedPathIdentities entries = Inl e"
      by (cases "assignedPathIdentities entries")
        (auto simp: assignedPathIdentities_def entry bindE_def)
    from Cons.IH[OF this] show ?thesis by auto
  qed
qed

lemma plans_get_assigned:
  "plans_get (a\<lparr>plans := map (\<lambda>(i, slot). (i, map_option f slot)) (plans a)\<rparr>) i
     = map_option (map_option f) (plans_get a i)"
proof -
  have "map_of (map (\<lambda>(i, slot). (i, map_option f slot)) xs) i
      = map_option (map_option f) (map_of xs i)" for xs :: "(planId \<times> plan option) list"
    by (induction xs) auto
  then show ?thesis by (simp add: plans_get_def)
qed

lemma assignCommonAncestorPathIdentity_cases:
  assumes "walkTreeFirstPlanUsages n a planIds ref rootTreeNode = Some (Inr calls)"
  shows "(\<exists>e. assignCommonAncestorPathIdentity n a planIds ref rootTreeNode = Some (Inl e)
              \<and> (assignedPathIdentities (treeNodesByPlan calls) = Inl e
                  \<or> e = AssertionFailed
                    \<and> (\<exists>assigned. assignedPathIdentities (treeNodesByPlan calls) = Inr assigned)))
       \<or> (\<exists>assigned. assignedPathIdentities (treeNodesByPlan calls) = Inr assigned
            \<and> assignCommonAncestorPathIdentity n a planIds ref rootTreeNode
                = Some (Inr (a\<lparr>plans := map (\<lambda>(i, slot).
                                  (i, map_option (setCommonAncestorPathIdentity assigned) slot))
                                (plans a)\<rparr>)))"
proof (cases "assignedPathIdentities (treeNodesByPlan calls)")
  case (Inl e)
  with assms show ?thesis by (simp add: assignCommonAncestorPathIdentity_def bindE_def)
next
  case (Inr assigned)
  let ?a1 = "a\<lparr>plans := map (\<lambda>(i, slot).
                (i, map_option (setCommonAncestorPathIdentity assigned) slot)) (plans a)\<rparr>"
  show ?thesis
  proof (cases "isDev ?a1 \<and> firstInvalidPlan ?a1 \<noteq> None")
    case True
    with assms Inr have
      "assignCommonAncestorPathIdentity n a planIds ref rootTreeNode = Some (Inl AssertionFailed)"
      by (auto simp: assignCommonAncestorPathIdentity_def bindE_def Let_def)
    with Inr show ?thesis by simp
  next
    case False
    with assms Inr have
      "assignCommonAncestorPathIdentity n a planIds ref rootTreeNode = Some (Inr ?a1)"
      by (auto simp: assignCommonAncestorPathIdentity_def bindE_def Let_def)
    with Inr show ?thesis by simp
  qed
qed

text \<open>
  C5: let the walk over the first plan usages return.  If
  \<^verbatim>\<open>assignCommonAncestorPathIdentity\<close> returns, then every slot of the plan table that
  held a plan holds that plan with, as its common ancestor path identity, the path
  identity of the deepest node common to the paths of the tree nodes at which the plan
  is first used (for every such tree node the path from the root, its final part whose
  nodes are under the plan's parent path identity, cut before the first list item); a
  plan that the walk did not meet is as it was, and so is everything else in the
  compiler state.  If the paths of some plan have no common node, the function fails;
  and it fails with the internal error about the common path for a plan only if the
  paths of that plan have no common node.
\<close>

theorem assignCommonAncestorPathIdentity_deepest:
  assumes "walkTreeFirstPlanUsages n a planIds ref rootTreeNode = Some (Inr calls)"
  shows "(\<forall>a'. assignCommonAncestorPathIdentity n a planIds ref rootTreeNode = Some (Inr a') \<longrightarrow>
            a' = a\<lparr>plans := plans a'\<rparr>
            \<and> map fst (plans a') = map fst (plans a)
            \<and> (\<forall>i. plans_get a i = Some None \<longrightarrow> plans_get a' i = Some None)
            \<and> (\<forall>i p. plans_get a i = Some (Some p) \<longrightarrow>
                  (if firstUsages calls p = [] then plans_get a' i = Some (Some p)
                   else \<exists>node.
                          deepestCommonNode
                            (map (usagePath (parentPathIdentity p)) (firstUsages calls p)) node
                          \<and> plans_get a' i
                              = Some (Some (p\<lparr>commonAncestorPathIdentity := pathIdentity node\<rparr>)))))
       \<and> ((\<exists>p. firstUsages calls p \<noteq> []
               \<and> \<not> (\<exists>node. deepestCommonNode
                              (map (usagePath (parentPathIdentity p)) (firstUsages calls p)) node))
            \<longrightarrow> (\<exists>e. assignCommonAncestorPathIdentity n a planIds ref rootTreeNode = Some (Inl e)))
       \<and> (\<forall>i. assignCommonAncestorPathIdentity n a planIds ref rootTreeNode
                  = Some (Inl (NoCommonAncestor i))
            \<longrightarrow> (\<exists>p. plan_id p = i \<and> firstUsages calls p \<noteq> []
                     \<and> \<not> (\<exists>node. deepestCommonNode
                                    (map (usagePath (parentPathIdentity p)) (firstUsages calls p))
                                    node)))"
proof -
  let ?run = "assignCommonAncestorPathIdentity n a planIds ref rootTreeNode"
  let ?entries = "treeNodesByPlan calls"
  let ?paths = "\<lambda>p. map (usagePath (parentPathIdentity p)) (firstUsages calls p)"
  note cases = assignCommonAncestorPathIdentity_cases[OF assms]
  have success: "\<exists>node. deepestCommonNode (?paths p) node
                   \<and> map_of assigned p = Some (pathIdentity node)"
    if "assignedPathIdentities ?entries = Inr assigned" "firstUsages calls p \<noteq> []"
    for assigned p
  proof -
    from that(2) have "map_of ?entries p = Some (firstUsages calls p)"
      by (simp add: map_of_treeNodesByPlan)
    with assignedPathIdentities_Inr[OF that(1), of p] obtain node where
      "commonAncestorNode p (firstUsages calls p) = Inr node"
      "map_of assigned p = Some (pathIdentity node)" by blast
    with commonAncestorNode_Inr show ?thesis by blast
  qed
  have 1: "a' = a\<lparr>plans := plans a'\<rparr>
            \<and> map fst (plans a') = map fst (plans a)
            \<and> (\<forall>i. plans_get a i = Some None \<longrightarrow> plans_get a' i = Some None)
            \<and> (\<forall>i p. plans_get a i = Some (Some p) \<longrightarrow>
                  (if firstUsages calls p = [] then plans_get a' i = Some (Some p)
                   else \<exists>node. deepestCommonNode (?paths p) node
                          \<and> plans_get a' i
                              = Some (Some (p\<lparr>commonAncestorPathIdentity := pathIdentity node\<rparr>))))"
    if run: "?run = Some (Inr a')" for a'
  proof -
    from cases run obtain assigned where
      assigned: "assignedPathIdentities ?entries = Inr assigned"
      and a': "a' = a\<lparr>plans := map (\<lambda>(i, slot).
                  (i, map_option (setCommonAncestorPathIdentity assigned) slot)) (plans a)\<rparr>"
      by auto
    have get: "plans_get a' i
        = map_option (map_option (setCommonAncestorPathIdentity assigned)) (plans_get a i)" for i
      unfolding a' by (rule plans_get_assigned)
    have f1: "a' = a\<lparr>plans := plans a'\<rparr>" by (simp add: a')
    have f2: "map fst (plans a') = map fst (plans a)"
      by (simp add: a' comp_def split_def)
    have f3: "\<forall>i. plans_get a i = Some None \<longrightarrow> plans_get a' i = Some None"
      by (simp add: get)
    have f4: "\<forall>i p. plans_get a i = Some (Some p) \<longrightarrow>
                  (if firstUsages calls p = [] then plans_get a' i = Some (Some p)
                   else \<exists>node. deepestCommonNode (?paths p) node
                          \<and> plans_get a' i
                              = Some (Some (p\<lparr>commonAncestorPathIdentity := pathIdentity node\<rparr>)))"
    proof (intro allI impI)
      fix i p assume slot: "plans_get a i = Some (Some p)"
      show "if firstUsages calls p = [] then plans_get a' i = Some (Some p)
            else \<exists>node. deepestCommonNode (?paths p) node
                   \<and> plans_get a' i
                       = Some (Some (p\<lparr>commonAncestorPathIdentity := pathIdentity node\<rparr>))"
      proof (cases "firstUsages calls p = []")
        case True
        then have "map_of ?entries p = None" by (simp add: map_of_treeNodesByPlan)
        with assignedPathIdentities_Inr[OF assigned, of p] have "map_of assigned p = None"
          by blast
        with True slot show ?thesis by (simp add: get setCommonAncestorPathIdentity_def)
      next
        case False
        from success[OF assigned False] obtain node where
          "deepestCommonNode (?paths p) node" "map_of assigned p = Some (pathIdentity node)"
          by blast
        with False slot show ?thesis
          by (auto simp: get setCommonAncestorPathIdentity_def)
      qed
    qed
    from f1 f2 f3 f4 show ?thesis by (intro conjI)
  qed
  have 2: "\<exists>e. ?run = Some (Inl e)"
    if "\<exists>p. firstUsages calls p \<noteq> [] \<and> \<not> (\<exists>node. deepestCommonNode (?paths p) node)"
  proof -
    from that obtain p where p: "firstUsages calls p \<noteq> []"
      "\<not> (\<exists>node. deepestCommonNode (?paths p) node)" by blast
    have "\<not> (\<exists>assigned. assignedPathIdentities ?entries = Inr assigned)"
      using success p by blast
    with cases show ?thesis by blast
  qed
  have 3: "\<exists>p. plan_id p = i \<and> firstUsages calls p \<noteq> []
             \<and> \<not> (\<exists>node. deepestCommonNode (?paths p) node)"
    if run: "?run = Some (Inl (NoCommonAncestor i))" for i
  proof -
    from cases run have "assignedPathIdentities ?entries = Inl (NoCommonAncestor i)" by auto
    from assignedPathIdentities_Inl[OF this] obtain p treeNodes where
      entry: "(p, treeNodes) \<in> set ?entries"
      and err: "commonAncestorNode p treeNodes = Inl (NoCommonAncestor i)" by blast
    from treeNodesByPlan_entry[OF entry] have nodes: "treeNodes = firstUsages calls p"
      and ne: "firstUsages calls p \<noteq> []" by simp_all
    from commonAncestorNode_NoCommonAncestor[OF err] nodes ne show ?thesis by auto
  qed
  from 1 2 3 show ?thesis by blast
qed

lemmas forum_defs =
  forum_aether_def forum_plans_def forum_planIds_def forum_tree_def forum_usages_def
  forum_plan_def node_root_def node_forums_def node_forums_item_def node_name_def node_id_def

lemma forum_walk:
  "walkTreeFirstPlanUsages 8 (forum_aether shared) forum_planIds 5 forum_tree
     = Some (Inr (forum_usages shared))"
  by (simp add: walkTreeFirstPlanUsages_def eval_nat_numeral forum_defs plans_get_def Let_def)

lemma forum_treeNodesByPlan:
  "treeNodesByPlan (forum_usages shared) =
     [(forum_plan 1 ValuePlan [] [], [node_root]),
      (forum_plan 2 (OtherPlan ''ForumsPlan'') [1] ''~'', [node_forums]),
      (forum_plan 3 ItemPlan [2] ''~>forums'', [node_forums_item]),
      (forum_plan 4 (OtherPlan ''AccessPlan'') [3, 6] ''~>forums[]'', [node_name]),
      (forum_plan 6 (OtherPlan ''ContextPlan'') [1] shared, [node_name, node_id]),
      (forum_plan 5 (OtherPlan ''AccessPlan'') [3, 6] ''~>forums[]'', [node_id])]"
  by (simp add: treeNodesByPlan_def addUsage_def forum_usages_def forum_plan_def)

lemmas commonAncestor_defs =
  commonAncestorNode_def treeNodePath_def bindE_def listChangeIndex_def listBoundary_def
  startsWith_def matchLoop.simps

lemma forum_commonAncestors:
  "commonAncestorNode (forum_plan 1 ValuePlan [] []) [node_root] = Inr node_root"
  "commonAncestorNode (forum_plan 2 (OtherPlan ''ForumsPlan'') [1] ''~'') [node_forums]
     = Inr node_forums"
  "commonAncestorNode (forum_plan 3 ItemPlan [2] ''~>forums'') [node_forums_item]
     = Inr node_forums"
  "commonAncestorNode (forum_plan 4 (OtherPlan ''AccessPlan'') [3, 6] ''~>forums[]'') [node_name]
     = Inr node_name"
  "commonAncestorNode (forum_plan 5 (OtherPlan ''AccessPlan'') [3, 6] ''~>forums[]'') [node_id]
     = Inr node_id"
  "commonAncestorNode (forum_plan 6 (OtherPlan ''ContextPlan'') [1] ''~'') [node_name, node_id]
     = Inr node_forums"
  "commonAncestorNode (forum_plan 6 (OtherPlan ''ContextPlan'') [1] ''~>forums[]>'')
     [node_name, node_id] = Inl (NoCommonAncestor 6)"
  by (simp_all add: commonAncestor_defs forum_plan_def
      node_root_def node_forums_def node_forums_item_def node_name_def node_id_def)

lemma forum_pathIdentities:
  "pathIdentity node_root = ''~''"
  "pathIdentity node_forums = ''~>forums''"
  "pathIdentity node_name = ''~>forums[]>name''"
  "pathIdentity node_id = ''~>forums[]>id''"
  by (simp_all add: node_root_def node_forums_def node_name_def node_id_def)

lemma forum_run:
  "assignCommonAncestorPathIdentity 8 (forum_aether ''~'') forum_planIds 5 forum_tree
     = Some (Inr ((forum_aether ''~'')\<lparr>plans := forum_plans_assigned\<rparr>))"
proof -
  have assigned: "assignedPathIdentities (treeNodesByPlan (forum_usages ''~'')) =
      Inr [(forum_plan 1 ValuePlan [] [], ''~''),
           (forum_plan 2 (OtherPlan ''ForumsPlan'') [1] ''~'', ''~>forums''),
           (forum_plan 3 ItemPlan [2] ''~>forums'', ''~>forums''),
           (forum_plan 4 (OtherPlan ''AccessPlan'') [3, 6] ''~>forums[]'', ''~>forums[]>name''),
           (forum_plan 6 (OtherPlan ''ContextPlan'') [1] ''~'', ''~>forums''),
           (forum_plan 5 (OtherPlan ''AccessPlan'') [3, 6] ''~>forums[]'', ''~>forums[]>id'')]"
    by (simp add: forum_treeNodesByPlan assignedPathIdentities_def forum_commonAncestors
        bindE_def forum_pathIdentities del: One_nat_def)
  show ?thesis
    by (simp add: assignCommonAncestorPathIdentity_def forum_walk assigned)
      (simp add: bindE_def Let_def forum_aether_def forum_plans_def forum_plans_assigned_def
        setCommonAncestorPathIdentity_def firstInvalidPlan_def List.map_filter_def forum_plan_def)
qed

lemma forum_failing_run:
  "assignCommonAncestorPathIdentity 8 (forum_aether ''~>forums[]>'') forum_planIds 5 forum_tree
     = Some (Inl (NoCommonAncestor 6))"
proof -
  have "assignedPathIdentities (treeNodesByPlan (forum_usages ''~>forums[]>''))
      = Inl (NoCommonAncestor 6)"
    by (simp add: forum_treeNodesByPlan assignedPathIdentities_def forum_commonAncestors
        bindE_def forum_pathIdentities del: One_nat_def)
  then show ?thesis
    by (simp add: assignCommonAncestorPathIdentity_def forum_walk bindE_def)
qed

lemma forum_firstUsages:
  "firstUsages (forum_usages shared) (forum_plan 6 (OtherPlan ''ContextPlan'') [1] shared)
     = [node_name, node_id]"
  by (simp add: firstUsages_def forum_usages_def forum_plan_def)

lemma example_paths:
  "usagePath ''~'' node_name = [node_root, node_forums]"
  "usagePath ''~'' node_id = [node_root, node_forums]"
  by (simp_all add: usagePath_def node_name_def node_id_def node_forums_item_def node_forums_def
      node_root_def startsWith_def listBoundary_def)

theorem assignCommonAncestorPathIdentity_deepest_witness:
  "walkTreeFirstPlanUsages 8 (forum_aether ''~'') forum_planIds 5 forum_tree
     = Some (Inr (forum_usages ''~''))
   \<and> assignCommonAncestorPathIdentity 8 (forum_aether ''~'') forum_planIds 5 forum_tree
       = Some (Inr ((forum_aether ''~'')\<lparr>plans := forum_plans_assigned\<rparr>))
   \<and> plans_get (forum_aether ''~'') 6 = Some (Some (forum_plan 6 (OtherPlan ''ContextPlan'') [1] ''~''))
   \<and> firstUsages (forum_usages ''~'') (forum_plan 6 (OtherPlan ''ContextPlan'') [1] ''~'')
       = [node_name, node_id]
   \<and> (\<exists>node. deepestCommonNode [[node_root, node_forums], [node_root, node_forums]] node
         \<and> plans_get ((forum_aether ''~'')\<lparr>plans := forum_plans_assigned\<rparr>) 6
             = Some (Some ((forum_plan 6 (OtherPlan ''ContextPlan'') [1] ''~'')
                             \<lparr>commonAncestorPathIdentity := pathIdentity node\<rparr>)))
   \<and> walkTreeFirstPlanUsages 8 (forum_aether ''~>forums[]>'') forum_planIds 5 forum_tree
       = Some (Inr (forum_usages ''~>forums[]>''))
   \<and> assignCommonAncestorPathIdentity 8 (forum_aether ''~>forums[]>'') forum_planIds 5 forum_tree
       = Some (Inl (NoCommonAncestor 6))
   \<and> (\<exists>p. plan_id p = 6 \<and> firstUsages (forum_usages ''~>forums[]>'') p \<noteq> []
         \<and> \<not> (\<exists>node. deepestCommonNode
                        (map (usagePath (parentPathIdentity p))
                           (firstUsages (forum_usages ''~>forums[]>'') p)) node))"
proof -
  let ?p = "forum_plan 6 (OtherPlan ''ContextPlan'') [1] ''~''"
  let ?a' = "(forum_aether ''~'')\<lparr>plans := forum_plans_assigned\<rparr>"
  have slot: "plans_get (forum_aether ''~'') 6 = Some (Some ?p)"
    by (simp add: plans_get_def forum_aether_def forum_plans_def)
  have par: "parentPathIdentity ?p = ''~''" by (simp add: forum_plan_def)
  have used: "firstUsages (forum_usages ''~'') ?p \<noteq> []"
    by (simp add: forum_firstUsages del: One_nat_def)
  from assignCommonAncestorPathIdentity_deepest[OF forum_walk[of "''~''"], THEN conjunct1,
      rule_format, OF forum_run, THEN conjunct2, THEN conjunct2, THEN conjunct2, rule_format,
      OF slot] used
  have "\<exists>node. deepestCommonNode
                 (map (usagePath (parentPathIdentity ?p)) (firstUsages (forum_usages ''~'') ?p)) node
          \<and> plans_get ?a' 6 = Some (Some (?p\<lparr>commonAncestorPathIdentity := pathIdentity node\<rparr>))"
    by (simp del: One_nat_def)
  then have ok: "\<exists>node. deepestCommonNode [[node_root, node_forums], [node_root, node_forums]] node
          \<and> plans_get ?a' 6 = Some (Some (?p\<lparr>commonAncestorPathIdentity := pathIdentity node\<rparr>))"
    by (simp add: par forum_firstUsages example_paths del: One_nat_def)
  from assignCommonAncestorPathIdentity_deepest[OF forum_walk[of "''~>forums[]>''"],
      THEN conjunct2, THEN conjunct2, rule_format, OF forum_failing_run]
  have failing: "\<exists>p. plan_id p = 6 \<and> firstUsages (forum_usages ''~>forums[]>'') p \<noteq> []
         \<and> \<not> (\<exists>node. deepestCommonNode
                        (map (usagePath (parentPathIdentity p))
                           (firstUsages (forum_usages ''~>forums[]>'') p)) node)" .
  from forum_walk[of "''~''"] forum_run slot forum_firstUsages[of "''~''"] ok
    forum_walk[of "''~>forums[]>''"] forum_failing_run failing
  show ?thesis by (intro conjI)
qed

section \<open>Errors in a batch\<close>

lemmas exec_defs =
  prepare_def doNext_def pendingPlanResultses_def pendingCache_def andThen_def
  executeSync_def executesSynchronously_def noDependencyValues_def shouldStream_def
  newArray_def newCache_def cacheSet_def bucketSet_def setFirst_def spliceAt_def splice_def
  readIndex_def plans_get_def Let_def

lemmas diamond_defs =
  diamond_aether_def diamond_executors_def diamond_heap_def row_a_def row_b_def
  users_item_plan_def fetch_plan_def plus_one_plan_def plus_two_plan_def sum_plan_def

text \<open>
  C6: when a plan has failed for some rows of a batch, the failure is a \<^verbatim>\<open>CrystalError\<close>
  in the result array and in the bucket, every dependent plan gives these rows the same
  error without invoking its \<^verbatim>\<open>execute\<close> for them, and the other rows are computed
  normally.

  This holds for a dependent plan that is executed alone, and fails when two plans of
  one batch depend on the failed plan.  In the example the plan 2 has failed for the
  first row and has given 7 for the second.  The plan 4, executed alone, gives the error
  to the first row and 9 to the second, and its \<^verbatim>\<open>execute\<close> is invoked with the value 7
  only.  Executed as a dependency of the plan 5, after the plan 3, it finds the results
  of the plan 2 in the plan cache, in the array out of which the plan 3 has spliced the
  error: its \<^verbatim>\<open>execute\<close> is invoked with the one value 7, the result 9 goes to the first
  row, for which the plan 2 has failed, and the second row gets \<^verbatim>\<open>undefined\<close>; the plan 5
  is then invoked for the second row with 8 and \<^verbatim>\<open>undefined\<close>.
\<close>

theorem executePlan_diamond_error_isolation:
  "observed (executePlan (Suc (Suc 0)) diamond_aether diamond_executors plus_two_plan
        [ResultsRow row_a, ResultsRow row_b] {} 0 diamond_heap)
   = Some (Inr ([CrystalError (JsError ''boom''), Data 9],
                [(1, Data 100), (2, CrystalError (JsError ''boom'')),
                 (4, CrystalError (JsError ''boom''))],
                [(1, Data 101), (2, Data 7), (4, Data 9)],
                [(4, [[Data 7]])]))
   \<and> observed (executePlan (Suc (Suc (Suc 0))) diamond_aether diamond_executors sum_plan
        [ResultsRow row_a, ResultsRow row_b] {} 0 diamond_heap)
   = Some (Inr ([CrystalError (JsError ''boom''), Undefined],
                [(1, Data 100), (2, CrystalError (JsError ''boom'')),
                 (3, CrystalError (JsError ''boom'')), (4, Data 9),
                 (5, CrystalError (JsError ''boom''))],
                [(1, Data 101), (2, Data 7), (3, Data 8), (4, Undefined), (5, Undefined)],
                [(3, [[Data 7]]), (4, [[Data 7]]), (5, [[Data 8], [Undefined]])]))"
  by (simp add: observed_def exec_defs diamond_defs)

section \<open>What an execution adds to the record of invocations\<close>

lemma executeCalls_bucketSet [simp]: "executeCalls (bucketSet b i v st) = executeCalls st"
  by (simp add: bucketSet_def)

lemma executeCalls_newArray [simp]: "executeCalls (snd (newArray xs st)) = executeCalls st"
  by (simp add: newArray_def)

lemma newArray_calls: "newArray xs st = (r, st') \<Longrightarrow> executeCalls st' = executeCalls st"
  by (auto simp: newArray_def)

lemma executeCalls_newCache [simp]: "executeCalls (snd (newCache st)) = executeCalls st"
  by (simp add: newCache_def)

lemma executeCalls_cacheSet [simp]: "executeCalls (cacheSet c i r st) = executeCalls st"
  by (simp add: cacheSet_def)

lemma executeCalls_spliceAt [simp]: "executeCalls (spliceAt i r st) = executeCalls st"
  by (simp add: spliceAt_def)

lemma executeCalls_fold_spliceAt [simp]:
  "executeCalls (fold (spliceAt i) rs st) = executeCalls st"
  by (induction rs arbitrary: st) simp_all

lemma executeCalls_setFirst [simp]: "executeCalls (setFirst cap i v items st) = executeCalls st"
  by (simp add: setFirst_def split: list.splits prod.splits)

lemma executeCalls_shortCircuit [simp]:
  "executeCalls (fst (shortCircuit p dvl pending i (st, result, toExecute))) = executeCalls st"
  by (induction i arbitrary: st result toExecute) (simp_all split: option.splits)

lemma executeCalls_fillExecuted [simp]:
  "executeCalls (fst (fillExecuted p e xs toExecute i (st, result))) = executeCalls st"
  by (induction toExecute arbitrary: i st result) (simp_all add: Let_def)

lemma executeCalls_executeSync:
  "executeCalls (fst (executeSync ex p dvl toExecute (st, result)))
     = executeCalls st @ [(p, map (arrayStore st) dvl)]"
  by (simp add: executeSync_def Let_def split: outcome.splits)

lemma executeCalls_noDependencyValues [simp]:
  "executeCalls (snd (noDependencyValues p k st)) = executeCalls st"
  by (simp add: noDependencyValues_def newArray_def)

lemma executeCalls_pendingCache [simp]:
  "executeCalls (snd (pendingCache pending rows cache st)) = executeCalls st"
  by (simp add: pendingCache_def)

lemma executeCalls_doNext:
  assumes "doNext a ex p dvl pending result st = Inr (r, st')"
  shows "executeCalls st' = executeCalls st \<or> (\<exists>values. executeCalls st' = executeCalls st @ [(p, values)])"
proof (cases "dependencies p \<noteq> []")
  case True
  obtain st1 result1 toExecute where sc:
    "shortCircuit p dvl pending (length pending) (st, result, []) = (st1, result1, toExecute)"
    by (cases "shortCircuit p dvl pending (length pending) (st, result, [])") auto
  have c1: "executeCalls st1 = executeCalls st"
    using executeCalls_shortCircuit[of p dvl pending "length pending" st result "[]"] sc by simp
  show ?thesis
  proof (cases "length toExecute = 0")
    case True
    with assms \<open>dependencies p \<noteq> []\<close> sc c1 show ?thesis
      by (auto simp: doNext_def dest: newArray_calls)
  next
    case False
    obtain st2 result2 where es:
      "executeSync ex p dvl (rev toExecute) (st1, result1) = (st2, result2)"
      by (cases "executeSync ex p dvl (rev toExecute) (st1, result1)") auto
    have c2: "executeCalls st2 = executeCalls st1 @ [(p, map (arrayStore st1) dvl)]"
      using executeCalls_executeSync[of ex p dvl "rev toExecute" st1 result1] es by simp
    from assms \<open>dependencies p \<noteq> []\<close> sc False es
    have "newArray result2 st2 = (r, st')"
      by (auto simp: doNext_def split: if_splits)
    with c1 c2 show ?thesis by (auto dest: newArray_calls)
  qed
next
  case False
  show ?thesis
  proof (cases "length pending = 0")
    case True
    with assms False show ?thesis
      by (auto simp: doNext_def dest: newArray_calls)
  next
    case nonempty: False
    obtain st2 result2 where es:
      "executeSync ex p dvl (rev pending) (st, result) = (st2, result2)"
      by (cases "executeSync ex p dvl (rev pending) (st, result)") auto
    have c2: "executeCalls st2 = executeCalls st @ [(p, map (arrayStore st) dvl)]"
      using executeCalls_executeSync[of ex p dvl "rev pending" st result] es by simp
    from assms False nonempty es
    have "newArray result2 st2 = (r, st')"
      by (auto simp: doNext_def split: if_splits)
    with c2 show ?thesis by (auto dest: newArray_calls)
  qed
qed

lemma appendsCalls_refl: "executeCalls st' = executeCalls st \<Longrightarrow> appendsCalls st st' S"
  by (simp add: appendsCalls_def)

lemma appendsCalls_trans:
  "appendsCalls st st1 S \<Longrightarrow> appendsCalls st1 st2 T \<Longrightarrow> appendsCalls st st2 (S \<union> T)"
  unfolding appendsCalls_def by (elim exE conjE, rule_tac x = "seg @ sega" in exI) auto

lemma appendsCalls_mono: "appendsCalls st st' S \<Longrightarrow> S \<subseteq> T \<Longrightarrow> appendsCalls st st' T"
  unfolding appendsCalls_def by blast

lemma appendsCalls_eq:
  "appendsCalls st st1 S \<Longrightarrow> executeCalls st2 = executeCalls st1 \<Longrightarrow> appendsCalls st st2 S"
  unfolding appendsCalls_def by simp

lemma appendsCalls_eq_left:
  "appendsCalls st1 st2 S \<Longrightarrow> executeCalls st1 = executeCalls st \<Longrightarrow> appendsCalls st st2 S"
  unfolding appendsCalls_def by simp

lemma prepare_visited:
  "prepare st p rows V = Complete x \<Longrightarrow> p \<notin> V"
  "prepare st p rows V = Pending y z \<Longrightarrow> p \<notin> V"
  by (auto simp: prepare_def split: if_splits)

lemma reachableFrom_dependency:
  "plansAt a (dependencies p) \<subseteq> reachableFrom a {p}"
  using reachableFrom_deps[of p a "{p}"] reachableFrom_refl[of "{p}" a] by auto

lemma reachableFrom_step:
  "q \<in> reachableFrom a {p} \<Longrightarrow> reachableFrom a {q} \<subseteq> reachableFrom a {p}"
  by (auto simp: reachableFrom_def)

lemma executeDependencies_calls:
  assumes plan: "\<And>p rows cache st r st'.
      executePlan n a ex p rows V cache st = Some (Inr (r, st'))
        \<Longrightarrow> appendsCalls st st' (reachableFrom a {p} - V)"
  shows "executeDependencies n a ex ids rows V cache st = Some (Inr (rs, st'))
     \<Longrightarrow> appendsCalls st st' (reachableFrom a (plansAt a ids) - V)"
proof (induction ids arbitrary: st rs st')
  case Nil
  then show ?case by (simp add: appendsCalls_refl)
next
  case (Cons i ids)
  from Cons.prems obtain q where q: "plans_get a i = Some (Some q)"
    by (auto split: option.splits)
  from Cons.prems q obtain r st1 where
    one: "executePlan n a ex q rows V cache st = Some (Inr (r, st1))"
    by (auto simp: andThen_def split: option.splits sum.splits)
  from Cons.prems q one obtain rs' where
    rest: "executeDependencies n a ex ids rows V cache st1 = Some (Inr (rs', st'))"
    by (auto simp: andThen_def split: option.splits sum.splits)
  have sub: "reachableFrom a {q} \<subseteq> reachableFrom a (plansAt a (i # ids))"
    "reachableFrom a (plansAt a ids) \<subseteq> reachableFrom a (plansAt a (i # ids))"
    using q by (auto intro!: reachableFrom_mono simp: plansAt_Cons)
  show ?case
    by (rule appendsCalls_mono[OF appendsCalls_trans[OF plan[OF one] Cons.IH[OF rest]]])
       (use sub in auto)
qed

lemma executePlanAlt_calls:
  assumes deps: "\<And>V ids rows cache st rs st'.
      executeDependencies n a ex ids rows V cache st = Some (Inr (rs, st'))
        \<Longrightarrow> appendsCalls st st' (reachableFrom a (plansAt a ids) - V)"
    and run: "executePlanAlt n a ex p rows V cache st = Some (Inr (r, st'))"
  shows "\<exists>st1. appendsCalls st st1 (reachableFrom a {p} - insert p V)
           \<and> (executeCalls st' = executeCalls st1
                \<or> (\<exists>values. executeCalls st' = executeCalls st1 @ [(p, values)]))
           \<and> p \<notin> V"
proof (cases "prepare st p rows V")
  case (Thrown e)
  with run show ?thesis by simp
next
  case (Complete result)
  with run have "executeCalls st' = executeCalls st" by (auto dest: newArray_calls)
  with prepare_visited(1)[OF Complete] show ?thesis
    by (intro exI[of _ st]) (simp add: appendsCalls_refl)
next
  case (Pending result pending)
  let ?c = "fst (pendingCache pending rows cache st)"
  let ?s = "snd (pendingCache pending rows cache st)"
  from run Pending obtain dvl st2 where
    d: "(if dependencies p \<noteq> []
         then executeDependencies n a ex (dependencies p) (pendingPlanResultses pending)
                (insert p V) ?c ?s
         else Some (Inr (noDependencyValues p (length pending) ?s))) = Some (Inr (dvl, st2))"
    and n: "doNext a ex p dvl pending result st2 = Inr (r, st')"
    by (auto simp: andThen_def split: option.splits sum.splits)
  have "appendsCalls ?s st2 (reachableFrom a {p} - insert p V)"
  proof (cases "dependencies p \<noteq> []")
    case True
    with d have m: "appendsCalls ?s st2 (reachableFrom a (plansAt a (dependencies p)) - insert p V)"
      by (auto intro: deps)
    have s: "reachableFrom a (plansAt a (dependencies p)) \<subseteq> reachableFrom a {p}"
      using reachableFrom_dependency[of a p] reachableFrom_step[of _ a p]
      by (auto simp: reachableFrom_def)
    show ?thesis by (rule appendsCalls_mono[OF m]) (use s in auto)
  next
    case False
    with d have "st2 = snd (noDependencyValues p (length pending) ?s)"
      by (metis Inr_inject option.inject snd_conv)
    then show ?thesis by (simp add: appendsCalls_refl)
  qed
  then have "appendsCalls st st2 (reachableFrom a {p} - insert p V)"
    by (rule appendsCalls_eq_left) simp
  with executeCalls_doNext[OF n] prepare_visited(2)[OF Pending] show ?thesis
    by (intro exI[of _ st2]) simp
qed

lemma executePlan_calls:
  "executePlan n a ex p rows V cache st = Some (Inr (r, st'))
     \<Longrightarrow> appendsCalls st st' (reachableFrom a {p} - V)"
proof (induction n arbitrary: p rows V cache st r st')
  case 0
  then show ?case by simp
next
  case (Suc n)
  show ?case
  proof (cases "map_of (cacheStore st cache) (plan_id p)")
    case (Some r')
    with Suc.prems show ?thesis by (simp add: appendsCalls_refl)
  next
    case None
    with Suc.prems obtain st1 where
      alt: "executePlanAlt n a ex p rows V cache st = Some (Inr (r, st1))"
      and st': "st' = cacheSet cache (plan_id p) r st1"
      by (auto simp: andThen_def split: option.splits sum.splits)
    have deps: "\<And>V ids rows cache st rs st'.
      executeDependencies n a ex ids rows V cache st = Some (Inr (rs, st'))
        \<Longrightarrow> appendsCalls st st' (reachableFrom a (plansAt a ids) - V)"
      by (rule executeDependencies_calls[OF Suc.IH])
    have "\<exists>st0. appendsCalls st st0 (reachableFrom a {p} - insert p V)
           \<and> (executeCalls st1 = executeCalls st0
                \<or> (\<exists>values. executeCalls st1 = executeCalls st0 @ [(p, values)]))
           \<and> p \<notin> V"
      by (rule executePlanAlt_calls[OF _ alt]) (rule deps)
    then obtain st0 where
      a0: "appendsCalls st st0 (reachableFrom a {p} - insert p V)"
      and own: "executeCalls st1 = executeCalls st0
                \<or> (\<exists>values. executeCalls st1 = executeCalls st0 @ [(p, values)])"
      and nv: "p \<notin> V"
      by blast
    have "p \<in> reachableFrom a {p}" using reachableFrom_refl[of "{p}" a] by simp
    with own nv have "appendsCalls st0 st1 (reachableFrom a {p} - V)"
      by (auto simp: appendsCalls_def)
    from appendsCalls_trans[OF a0 this] have "appendsCalls st st1 (reachableFrom a {p} - V)"
      by (rule appendsCalls_mono) auto
    then show ?thesis unfolding st' by (rule appendsCalls_eq) simp
  qed
qed

section \<open>The order of the side effects\<close>

lemma promiseThen_rejected:
  "settledWith chain = Inl e \<Longrightarrow> promiseThen chain onFulfilled = Promise (settledAt chain) (stateThen chain) (Inl e)"
  by (simp add: promiseThen_def)

lemma sideEffect_chain_rejected:
  "settledWith chain = Inl e
     \<Longrightarrow> fold (\<lambda>sideEffectPlan chain. promiseThen chain (\<lambda>_. runPlan sideEffectPlan rows))
           sideEffectPlans chain = chain"
proof (induction sideEffectPlans)
  case Nil
  then show ?case by simp
next
  case (Cons p ps)
  from Cons.prems have "promiseThen chain (\<lambda>_. runPlan p rows) = chain"
    by (cases chain) (simp add: promiseThen_def)
  with Cons show ?case by simp
qed

lemma sideEffect_chain_fulfilled:
  "settledWith chain = Inr v
     \<Longrightarrow> fold (\<lambda>sideEffectPlan chain. promiseThen chain (\<lambda>_. runPlan sideEffectPlan rows))
           sideEffectPlans chain
         = snd (inDeclarationOrder runPlan sideEffectPlans rows (settledAt chain) (stateThen chain))"
proof (induction sideEffectPlans arbitrary: chain v)
  case Nil
  then show ?case by (cases chain) simp
next
  case (Cons p ps)
  let ?settled = "runPlan p rows (settledAt chain) (stateThen chain)"
  from Cons.prems have step: "promiseThen chain (\<lambda>_. runPlan p rows) = ?settled"
    by (simp add: promiseThen_def)
  show ?case
  proof (cases "settledWith ?settled")
    case (Inl e)
    then show ?thesis
      by (simp add: step sideEffect_chain_rejected[OF Inl] Let_def)
  next
    case (Inr w)
    from Cons.IH[OF Inr] Inr show ?thesis
      by (simp add: step Let_def split: prod.splits)
  qed
qed

lemma inDeclarationOrder_calls:
  "inDeclarationOrder runPlan sideEffectPlans rows now st = (calls, chain)
     \<Longrightarrow> map fst calls = take (length calls) sideEffectPlans
         \<and> (settledWith chain = Inr () \<longrightarrow> map fst calls = sideEffectPlans)
         \<and> (\<forall>i < length calls.
               fst (snd (calls ! i)) = (if i = 0 then now else snd (snd (calls ! (i - 1)))))
         \<and> settledAt chain = (if calls = [] then now else snd (snd (last calls)))"
proof (induction sideEffectPlans arbitrary: now st calls chain)
  case Nil
  then show ?case by auto
next
  case (Cons p ps)
  let ?settled = "runPlan p rows now st"
  show ?case
  proof (cases "settledWith ?settled")
    case (Inl e)
    with Cons.prems have "calls = [(p, now, settledAt ?settled)]" "chain = ?settled"
      by (auto simp: Let_def)
    with Inl show ?thesis by simp
  next
    case (Inr w)
    obtain calls' chain' where
      rest: "inDeclarationOrder runPlan ps rows (settledAt ?settled) (stateThen ?settled)
               = (calls', chain')"
      by (cases "inDeclarationOrder runPlan ps rows (settledAt ?settled) (stateThen ?settled)")
    with Cons.prems Inr have calls: "calls = (p, now, settledAt ?settled) # calls'"
      and chain: "chain = chain'" by (auto simp: Let_def)
    note ih = Cons.IH[OF rest]
    from ih have i1: "map fst calls' = take (length calls') ps" by blast
    from ih have i2: "settledWith chain' = Inr () \<longrightarrow> map fst calls' = ps" by blast
    from ih have i4: "settledAt chain'
        = (if calls' = [] then settledAt ?settled else snd (snd (last calls')))" by blast
    have 1: "map fst calls = take (length calls) (p # ps)"
      using i1 by (simp add: calls)
    have 2: "settledWith chain = Inr () \<longrightarrow> map fst calls = p # ps"
      using i2 by (simp add: calls chain)
    have 3: "\<forall>i < length calls.
               fst (snd (calls ! i)) = (if i = 0 then now else snd (snd (calls ! (i - 1))))"
    proof (intro allI impI)
      fix i assume i: "i < length calls"
      show "fst (snd (calls ! i)) = (if i = 0 then now else snd (snd (calls ! (i - 1))))"
      proof (cases i)
        case 0
        then show ?thesis by (simp add: calls)
      next
        case (Suc j)
        with i have j: "j < length calls'" by (simp add: calls)
        with ih have "fst (snd (calls' ! j))
            = (if j = 0 then settledAt ?settled else snd (snd (calls' ! (j - 1))))" by blast
        with Suc show ?thesis by (cases j) (simp_all add: calls)
      qed
    qed
    have 4: "settledAt chain = (if calls = [] then now else snd (snd (last calls)))"
      using i4 by (simp add: calls chain)
    from 1 2 3 4 show ?thesis by (intro conjI)
  qed
qed

lemma inDeclarationOrder_later:
  assumes later: "\<forall>p t s. t \<le> settledAt (runPlan p rows t s)"
  shows "inDeclarationOrder runPlan sideEffectPlans rows now st = (calls, chain)
     \<Longrightarrow> \<forall>i < length calls. fst (snd (calls ! i)) \<le> snd (snd (calls ! i))"
proof (induction sideEffectPlans arbitrary: now st calls chain)
  case Nil
  then show ?case by auto
next
  case (Cons p ps)
  let ?settled = "runPlan p rows now st"
  from later have le: "now \<le> settledAt ?settled" by blast
  show ?case
  proof (cases "settledWith ?settled")
    case (Inl e)
    with Cons.prems have "calls = [(p, now, settledAt ?settled)]" by (auto simp: Let_def)
    with le show ?thesis by simp
  next
    case (Inr w)
    obtain calls' chain' where
      rest: "inDeclarationOrder runPlan ps rows (settledAt ?settled) (stateThen ?settled)
               = (calls', chain')"
      by (cases "inDeclarationOrder runPlan ps rows (settledAt ?settled) (stateThen ?settled)")
    with Cons.prems Inr have calls: "calls = (p, now, settledAt ?settled) # calls'"
      by (auto simp: Let_def)
    note ih = Cons.IH[OF rest]
    show ?thesis
    proof (intro allI impI)
      fix i assume "i < length calls"
      with ih le show "fst (snd (calls ! i)) \<le> snd (snd (calls ! i))"
        by (cases i) (simp_all add: calls)
    qed
  qed
qed

text \<open>
  C4: whatever the side-effect plans and the layers of the field do and however long
  each takes, \<^verbatim>\<open>executeBatchForPlanResultses\<close> is the run of the side-effect plans in the
  order of their declaration followed by the layers: the first plan is called at the start,
  each further plan at the time at which, and in the state in which, the promise of the
  plan before it is fulfilled, and the layers when the promise of the last plan is
  fulfilled; after a rejection neither a further plan nor the layers are started.  The
  plans called are a prefix of the declared ones, in that order, and all of them when no
  promise is rejected; and when no promise is settled before its call, each plan is
  settled before the next is called.
\<close>

theorem sideEffects_in_declaration_order:
  "inDeclarationOrder runPlan sideEffectPlans rows now st = (calls, chain) \<Longrightarrow>
     executeBatchForPlanResultses runPlan sideEffectPlans rows executeBatchInner now st
       = (case settledWith chain of
            Inl e \<Rightarrow> Promise (settledAt chain) (stateThen chain) (Inl e)
          | Inr _ \<Rightarrow> executeBatchInner (settledAt chain) (stateThen chain))
     \<and> map fst calls = take (length calls) sideEffectPlans
     \<and> (settledWith chain = Inr () \<longrightarrow> map fst calls = sideEffectPlans)
     \<and> (\<forall>i < length calls.
           fst (snd (calls ! i)) = (if i = 0 then now else snd (snd (calls ! (i - 1)))))
     \<and> settledAt chain = (if calls = [] then now else snd (snd (last calls)))
     \<and> ((\<forall>p t s. t \<le> settledAt (runPlan p rows t s))
          \<longrightarrow> (\<forall>i < length calls. fst (snd (calls ! i)) \<le> snd (snd (calls ! i))))"
proof -
  assume run: "inDeclarationOrder runPlan sideEffectPlans rows now st = (calls, chain)"
  let ?step = "\<lambda>sideEffectPlan chain. promiseThen chain (\<lambda>_. runPlan sideEffectPlan rows)"
  have "fold ?step sideEffectPlans (promiseResolve now st) = chain"
    using sideEffect_chain_fulfilled[of "promiseResolve now st" "()" runPlan rows sideEffectPlans]
      run
    by (simp add: promiseResolve_def)
  then have "executeBatchForPlanResultses runPlan sideEffectPlans rows executeBatchInner now st
      = promiseThen chain (\<lambda>_. executeBatchInner)"
    using run
    by (cases sideEffectPlans) (auto simp: executeBatchForPlanResultses_def promiseThen_def promiseResolve_def)
  then have 1: "executeBatchForPlanResultses runPlan sideEffectPlans rows executeBatchInner now st
       = (case settledWith chain of
            Inl e \<Rightarrow> Promise (settledAt chain) (stateThen chain) (Inl e)
          | Inr _ \<Rightarrow> executeBatchInner (settledAt chain) (stateThen chain))"
    by (simp add: promiseThen_def)
  note 2 = inDeclarationOrder_calls[OF run]
  have 3: "(\<forall>p t s. t \<le> settledAt (runPlan p rows t s))
          \<longrightarrow> (\<forall>i < length calls. fst (snd (calls ! i)) \<le> snd (snd (calls ! i)))"
    using inDeclarationOrder_later[OF _ run] by blast
  from 1 2 3 show ?thesis by blast
qed

theorem sideEffects_in_declaration_order_witness:
  "inDeclarationOrder effect_runPlan [effect_plan 1, effect_plan 2, effect_plan 3]
       [ResultsRow root_row] 0 []
     = ([(effect_plan 1, 0, 5), (effect_plan 2, 5, 6), (effect_plan 3, 6, 9)],
        Promise 9 [Started 1 0, Completed 1 5, Started 2 5, Completed 2 6,
                   Started 3 6, Completed 3 9] (Inr ()))
   \<and> (\<forall>p t s. t \<le> settledAt (effect_runPlan p [ResultsRow root_row] t s))
   \<and> executeBatchForPlanResultses effect_runPlan [effect_plan 1, effect_plan 2, effect_plan 3]
        [ResultsRow root_row] effect_layers 0 []
      = Promise 9 [Started 1 0, Completed 1 5, Started 2 5, Completed 2 6,
                   Started 3 6, Completed 3 9, LayersStarted 9] (Inr [Data 1])"
proof -
  have run: "inDeclarationOrder effect_runPlan [effect_plan 1, effect_plan 2, effect_plan 3]
       [ResultsRow root_row] 0 []
     = ([(effect_plan 1, 0, 5), (effect_plan 2, 5, 6), (effect_plan 3, 6, 9)],
        Promise 9 [Started 1 0, Completed 1 5, Started 2 5, Completed 2 6,
                   Started 3 6, Completed 3 9] (Inr ()))"
    by (simp add: effect_runPlan_def effect_latency_def effect_plan_def Let_def)
  have later: "\<forall>p t s. t \<le> settledAt (effect_runPlan p [ResultsRow root_row] t s)"
    by (simp add: effect_runPlan_def)
  from sideEffects_in_declaration_order[OF run, of effect_layers]
  have "executeBatchForPlanResultses effect_runPlan [effect_plan 1, effect_plan 2, effect_plan 3]
        [ResultsRow root_row] effect_layers 0 []
      = Promise 9 [Started 1 0, Completed 1 5, Started 2 5, Completed 2 6,
                   Started 3 6, Completed 3 9, LayersStarted 9] (Inr [Data 1])"
    by (simp add: effect_layers_def)
  with run later show ?thesis by (intro conjI)
qed

end
